theory Spec2Isabelle
  imports Main "HOL-Library.Word"
begin

section \<open>Values and the runtime's error state\<close>

text \<open>
  The reader and the primitives that only read list cells are modelled over values as
  trees. \<open>LNil\<close> is the nil singleton (\<open>rt->nil\<close>, of list type with both fields
  \<open>NULL\<close>), \<open>LCons\<close> a list cell with its \<open>left\<close> and \<open>right\<close>, \<open>LInt\<close> a C
  \<open>int\<close>, \<open>LOpaque\<close> a builtin, lambda or scope object, none of whose fields the
  functions below read. A pointer that may be \<open>NULL\<close> is a \<open>lisp_value option\<close>.
\<close>

datatype lisp_value =
    LNil
  | LCons lisp_value lisp_value
  | LInt "32 word"
  | LStr string
  | LSym string
  | LOpaque nat

text \<open>
  \<open>enum lisp_errno\<close> is declared in a header that is not part of the sources at hand;
  the enumerators are the ones the sources use, with \<open>LE_OK\<close> for the value 0 and
  \<open>LE_ONE\<close> for the literal \<open>1\<close> that \<open>parse.c\<close> returns where a quote or a list
  element is missing.
\<close>

datatype lisp_errno =
    LE_OK
  | LE_ONE
  | LE_ERROR
  | LE_EOF
  | LE_SYNTAX
  | LE_FERROR
  | LE_2MANY
  | LE_2FEW
  | LE_TYPE

record runtime =
  error :: "string option"
  err_num :: lisp_errno
  error_line :: nat

section \<open>The reader (parse.c)\<close>

subsection \<open>The input buffer and the character classes\<close>

text \<open>
  The input is a nul-terminated buffer: \<open>rd s i\<close> is \<open>input[i]\<close>, the terminator at
  \<open>length s\<close>. A read behind the terminator is undefined in C; the model reads a nul
  byte there as well.
\<close>

definition NUL :: char where
  "NUL = CHR 0x00"

definition rd :: "string \<Rightarrow> nat \<Rightarrow> char" where
  "rd s i = (if i < length s then s ! i else NUL)"

definition isspace :: "char \<Rightarrow> bool" where
  "isspace c = (c \<in> set [CHR '' '', CHR 0x09, CHR 0x0A, CHR 0x0B, CHR 0x0C, CHR 0x0D])"

definition isdigit :: "char \<Rightarrow> bool" where
  "isdigit c = (c \<in> set ''0123456789'')"

definition COMMENT :: char where
  "COMMENT = CHR '';''"

record result =
  result :: "lisp_value option"
  index :: nat
  rerror :: lisp_errno

definition return_result_err :: "lisp_value option \<Rightarrow> nat \<Rightarrow> lisp_errno \<Rightarrow> result" where
  "return_result_err v i e = \<lparr>result = v, index = i, rerror = e\<rparr>"

definition return_result :: "lisp_value option \<Rightarrow> nat \<Rightarrow> result" where
  "return_result v i = return_result_err v i LE_OK"

subsection \<open>Integers\<close>

text \<open>
  \<open>sscanf(input + index, "%d%n", &v->x, &n)\<close>: white space is skipped, an optional sign
  is taken, then at least one decimal digit is needed; \<open>n\<close> is the number of bytes
  consumed. When the number converted does not fit an \<open>int\<close> (32 bits, from
  \<open>- 2147483648\<close> to \<open>2147483647\<close>), C leaves the behaviour of \<open>sscanf\<close> undefined:
  that is the outcome \<open>Unrepresentable\<close>, and no value is given for it.
\<close>

definition digit_val :: "char \<Rightarrow> nat" where
  "digit_val c = of_char c - 48"

definition decimal :: "string \<Rightarrow> nat" where
  "decimal ds = foldl (\<lambda>a c. 10 * a + digit_val c) 0 ds"

datatype scanned = Mismatch | Unrepresentable | Stored "32 word" nat

definition sscanf_d :: "string \<Rightarrow> scanned" where
  "sscanf_d s =
     (let ws = takeWhile isspace s;
          s1 = dropWhile isspace s;
          sg = (if s1 \<noteq> [] \<and> (hd s1 = CHR ''-'' \<or> hd s1 = CHR ''+'') then 1 else 0);
          s2 = drop sg s1;
          ds = takeWhile isdigit s2
      in if ds = [] then Mismatch
         else if sg = 1 \<and> hd s1 = CHR ''-''
         then (if decimal ds \<le> 2147483648
               then Stored (- word_of_nat (decimal ds)) (length ws + sg + length ds)
               else Unrepresentable)
         else (if decimal ds \<le> 2147483647
               then Stored (word_of_nat (decimal ds)) (length ws + sg + length ds)
               else Unrepresentable))"

text \<open>
  \<open>lisp_parse_integer\<close>: \<open>None\<close> says that the run left defined behaviour, in the
  call of \<open>sscanf\<close> on a number that does not fit an \<open>int\<close>.
\<close>

definition lisp_parse_integer ::
  "runtime \<Rightarrow> string \<Rightarrow> nat \<Rightarrow> (runtime \<times> result) option" where
  "lisp_parse_integer rt input i =
     (case sscanf_d (takeWhile (\<lambda>c. c \<noteq> NUL) (drop i input)) of
        Mismatch \<Rightarrow> Some (rt\<lparr>error := Some ''syntax error: error parsing integer''\<rparr>,
                          return_result_err None i LE_SYNTAX)
      | Unrepresentable \<Rightarrow> None
      | Stored x n \<Rightarrow> Some (rt, return_result (Some (LInt x)) (i + n)))"

subsection \<open>White space and comments\<close>

function skip_space :: "string \<Rightarrow> nat \<Rightarrow> nat" where
  "skip_space s i = (if isspace (rd s i) then skip_space s (i + 1) else i)"
  by pat_completeness auto
termination
  by (relation "measure (\<lambda>(s, i). length s - i)")
     (auto simp: rd_def isspace_def NUL_def split: if_splits)

declare skip_space.simps [simp del]

function skip_comment :: "string \<Rightarrow> nat \<Rightarrow> nat" where
  "skip_comment s i =
     (if rd s i \<noteq> NUL \<and> rd s i \<noteq> CHR 0x0A then skip_comment s (i + 1) else i)"
  by pat_completeness auto
termination
  by (relation "measure (\<lambda>(s, i). length s - i)")
     (auto simp: rd_def split: if_splits)

declare skip_comment.simps [simp del]

lemma skip_space_ge: "i \<le> skip_space s i"
proof (induction s i rule: skip_space.induct)
  case (1 s i)
  show ?case
  proof (cases "isspace (rd s i)")
    case True
    with 1 have "i + 1 \<le> skip_space s (i + 1)" by simp
    with True show ?thesis by (subst skip_space.simps) simp
  next
    case False
    then show ?thesis by (subst skip_space.simps) simp
  qed
qed

lemma skip_comment_gt:
  assumes "rd s i \<noteq> NUL" "rd s i \<noteq> CHR 0x0A"
  shows "i < skip_comment s i"
proof -
  have ge: "j \<le> skip_comment s j" for j
  proof (induction s j rule: skip_comment.induct)
    case (1 s j)
    show ?case
    proof (cases "rd s j \<noteq> NUL \<and> rd s j \<noteq> CHR 0x0A")
      case True
      with 1 have "j + 1 \<le> skip_comment s (j + 1)" by simp
      with True show ?thesis by (subst skip_comment.simps) simp
    next
      case False
      have "skip_comment s j = j"
        by (subst skip_comment.simps) (simp only: False if_False)
      then show ?thesis by simp
    qed
  qed
  have "skip_comment s i = skip_comment s (i + 1)"
    using assms by (subst skip_comment.simps) simp
  with ge [of "i + 1"] show ?thesis by simp
qed

lemma skip_comment_le: "i \<le> length s \<Longrightarrow> skip_comment s i \<le> length s"
proof (induction s i rule: skip_comment.induct)
  case (1 s i)
  show ?case
  proof (cases "rd s i \<noteq> NUL \<and> rd s i \<noteq> CHR 0x0A")
    case True
    then have "i < length s" by (auto simp: rd_def split: if_splits)
    with 1 True have "skip_comment s (i + 1) \<le> length s" by simp
    with True show ?thesis by (subst skip_comment.simps) simp
  next
    case False
    have "skip_comment s i = i"
      by (subst skip_comment.simps) (simp only: False if_False)
    with 1 show ?thesis by simp
  qed
qed

text \<open>
  The outer \<open>for (;;)\<close> of \<open>skip_space_and_comments\<close>: skip white space, and if a
  comment starts there skip to the end of its line and go round again.
\<close>

function skip_space_and_comments :: "string \<Rightarrow> nat \<Rightarrow> nat" where
  "skip_space_and_comments s i =
     (let j = skip_space s i
      in if rd s j \<noteq> NUL \<and> rd s j = COMMENT
         then skip_space_and_comments s (skip_comment s j)
         else j)"
  by pat_completeness auto
termination
proof (relation "measure (\<lambda>(s, i). Suc (length s) - i)", goal_cases)
  case 1
  show ?case by simp
next
  case (2 s i j)
  then have c: "rd s j \<noteq> NUL" "rd s j \<noteq> CHR 0x0A"
    by (auto simp: COMMENT_def)
  then have "j < length s" by (auto simp: rd_def split: if_splits)
  moreover have "i \<le> j" using 2 skip_space_ge [of i s] by simp
  moreover have "j < skip_comment s j" using c by (rule skip_comment_gt)
  moreover have "skip_comment s j \<le> length s"
    using \<open>j < length s\<close> by (intro skip_comment_le) simp
  ultimately show ?case by simp
qed

declare skip_space_and_comments.simps [simp del]

subsection \<open>Strings\<close>

definition lisp_escape :: "char \<Rightarrow> char" where
  "lisp_escape escape =
     (if escape = CHR ''a'' then CHR 0x07
      else if escape = CHR ''b'' then CHR 0x08
      else if escape = CHR ''f'' then CHR 0x0C
      else if escape = CHR ''n'' then CHR 0x0A
      else if escape = CHR ''r'' then CHR 0x08
      else if escape = CHR ''t'' then CHR 0x09
      else if escape = CHR ''v'' then CHR 0x0B
      else escape)"

text \<open>
  The \<open>while\<close> loop of \<open>lisp_parse_string\<close>, on the index \<open>i\<close> and the character
  buffer \<open>cb\<close>; after a backslash the next byte is taken whatever it is
  (\<open>input[++i]\<close>, then \<open>i++\<close>).
\<close>

function parse_string_loop :: "string \<Rightarrow> nat \<Rightarrow> string \<Rightarrow> nat \<times> string" where
  "parse_string_loop s i cb =
     (if rd s i \<noteq> NUL \<and> rd s i \<noteq> CHR 0x22
      then (if rd s i = CHR 0x5C
            then parse_string_loop s (i + 2) (cb @ [lisp_escape (rd s (i + 1))])
            else parse_string_loop s (i + 1) (cb @ [rd s i]))
      else (i, cb))"
  by pat_completeness auto
termination
  by (relation "measure (\<lambda>(s, i, cb). length s - i)")
     (auto simp: rd_def split: if_splits)

declare parse_string_loop.simps [simp del]

definition lisp_parse_string :: "runtime \<Rightarrow> string \<Rightarrow> nat \<Rightarrow> runtime \<times> result" where
  "lisp_parse_string rt input i0 =
     (case parse_string_loop input (i0 + 1) [] of
        (i, cb) \<Rightarrow>
          if rd input i = NUL
          then (rt\<lparr>error := Some ''unexpected eof while parsing string''\<rparr>,
                return_result_err None i LE_SYNTAX)
          else (rt, return_result (Some (LStr cb)) (i + 1)))"

subsection \<open>Symbols and dotted symbols\<close>

text \<open>
  Modelled from the spec: \<open>lisp_list_new\<close> and \<open>lisp_quote_with\<close> are defined outside
  the sources at hand. \<open>lisp_list_new rt l r\<close> is a new list cell with these two
  fields; \<open>lisp_quote_with rt v name\<close> is the two-element list \<open>(name v)\<close>, as the
  quote sugar \<open>'x\<close> is \<open>(quote x)\<close>.
\<close>

definition lisp_list_new :: "lisp_value \<Rightarrow> lisp_value \<Rightarrow> lisp_value" where
  "lisp_list_new l r = LCons l r"

definition lisp_quote_with :: "lisp_value \<Rightarrow> string \<Rightarrow> lisp_value" where
  "lisp_quote_with v name = LCons (LSym name) (LCons v LNil)"

text \<open>
  \<open>strchr(string, c)\<close> on the buffer \<open>s\<close> from position \<open>pos\<close>: the position of the
  first \<open>c\<close> before the terminator, \<open>None\<close> for \<open>NULL\<close>. \<open>c_substr s pos len\<close> is
  the string that \<open>strncpy(tok, string, len); tok[len] = '\0'\<close> leaves in \<open>tok\<close>.
\<close>

definition strchr :: "string \<Rightarrow> nat \<Rightarrow> char \<Rightarrow> nat option" where
  "strchr s pos c =
     (let t = takeWhile (\<lambda>x. x \<noteq> NUL) (drop pos s)
      in if c \<in> set t then Some (pos + length (takeWhile (\<lambda>x. x \<noteq> c) t)) else None)"

definition c_substr :: "string \<Rightarrow> nat \<Rightarrow> nat \<Rightarrow> string" where
  "c_substr s pos len = takeWhile (\<lambda>x. x \<noteq> NUL) (take len (drop pos s))"

text \<open>
  The \<open>for\<close> loop of \<open>split_symbol\<close>, on \<open>i\<close>, the position \<open>str\<close> of \<open>string\<close> in the
  buffer, the position \<open>delim\<close>, \<open>remain\<close> and \<open>prev\<close>. A \<open>NULL\<close> from \<open>strchr\<close>
  makes the pointer difference undefined: the result is \<open>None\<close>.
\<close>

function split_loop ::
  "string \<Rightarrow> nat \<Rightarrow> nat \<Rightarrow> nat \<Rightarrow> nat \<Rightarrow> int \<Rightarrow> lisp_value \<Rightarrow> lisp_value option" where
  "split_loop s dotcount i str delim remain prev =
     (if i < dotcount
      then (case (if i + 1 < dotcount
                  then (case strchr s str (CHR ''.'') of
                          None \<Rightarrow> None
                        | Some d \<Rightarrow> Some (d, int d - int str))
                  else Some (delim, remain)) of
              None \<Rightarrow> None
            | Some (delim', len) \<Rightarrow>
                split_loop s dotcount (i + 1) (delim' + 1) delim' (remain - (len + 1))
                  (lisp_list_new (LSym ''getattr'')
                     (lisp_list_new prev
                        (lisp_list_new
                           (lisp_quote_with (LSym (c_substr s str (nat len))) ''quote'')
                           LNil))))
      else Some prev)"
  by pat_completeness auto
termination
  by (relation "measure (\<lambda>(s, dotcount, i, str, delim, remain, prev). dotcount - i)") auto

declare split_loop.simps [simp del]

definition split_symbol :: "string \<Rightarrow> nat \<Rightarrow> nat \<Rightarrow> nat \<Rightarrow> lisp_value option" where
  "split_symbol s str dotcount remain =
     (case strchr s str (CHR ''.'') of
        None \<Rightarrow> None
      | Some delim \<Rightarrow>
          split_loop s dotcount 0 (delim + 1) delim
            (int remain - (int (delim - str) + 1))
            (LSym (c_substr s str (delim - str))))"

text \<open>
  The \<open>while\<close> loop of \<open>lisp_parse_symbol\<close> that measures the token: it returns \<open>n\<close>
  and \<open>dotcount\<close>.
\<close>

definition symbol_char :: "char \<Rightarrow> bool" where
  "symbol_char c =
     (c \<noteq> NUL \<and> \<not> isspace c \<and> c \<noteq> CHR '')'' \<and> c \<noteq> CHR 0x27 \<and> c \<noteq> COMMENT)"

function symbol_scan :: "string \<Rightarrow> nat \<Rightarrow> nat \<Rightarrow> nat \<Rightarrow> nat \<times> nat" where
  "symbol_scan s i n dotcount =
     (if symbol_char (rd s (i + n))
      then symbol_scan s i (n + 1) (if rd s (i + n) = CHR ''.'' then dotcount + 1 else dotcount)
      else (n, dotcount))"
  by pat_completeness auto
termination
  by (relation "measure (\<lambda>(s, i, n, dotcount). length s - (i + n))")
     (auto simp: rd_def symbol_char_def split: if_splits)

declare symbol_scan.simps [simp del]

definition lisp_parse_symbol :: "runtime \<Rightarrow> string \<Rightarrow> nat \<Rightarrow> (runtime \<times> result) option" where
  "lisp_parse_symbol rt input i =
     (case symbol_scan input i 0 0 of
        (n, dotcount) \<Rightarrow>
          if rd input i = NUL
          then Some (rt\<lparr>error := Some ''unexpected eof while parsing symbol''\<rparr>,
                     return_result_err None i LE_EOF)
          else if dotcount \<noteq> 0
          then (if rd input i = CHR ''.'' \<or> rd input (i + n - 1) = CHR ''.''
                then Some (rt\<lparr>error := Some ''unexpected '.' at beginning or end of symbol''\<rparr>,
                           return_result_err None i LE_SYNTAX)
                else (case split_symbol input i dotcount n of
                        None \<Rightarrow> None
                      | Some v \<Rightarrow> Some (rt, return_result (Some v) (i + n))))
          else Some (rt, return_result (Some (LSym (c_substr input i n))) (i + n)))"

subsection \<open>Values, lists and quotes\<close>

text \<open>
  The recursive descent. The first argument bounds the depth of the calls; \<open>None\<close> says
  that the bound was too small, or that the run left defined behaviour (\<open>assert(0)\<close>,
  a \<open>NULL\<close> from \<open>strchr\<close>, \<open>sscanf\<close> on a number that does not fit an \<open>int\<close>). The list under construction (\<open>rv\<close>, with \<open>l\<close> its last
  cell) is kept as the list \<open>acc\<close> of its elements, closed by \<open>foldr lisp_list_new\<close>.
\<close>

function (sequential) lisp_parse_value_internal ::
    "nat \<Rightarrow> runtime \<Rightarrow> string \<Rightarrow> nat \<Rightarrow> (runtime \<times> result) option"
  and lisp_parse_list_or_sexp ::
    "nat \<Rightarrow> runtime \<Rightarrow> string \<Rightarrow> nat \<Rightarrow> (runtime \<times> result) option"
  and parse_list_loop ::
    "nat \<Rightarrow> runtime \<Rightarrow> string \<Rightarrow> nat \<Rightarrow> lisp_value list \<Rightarrow> (runtime \<times> result) option"
  and lisp_parse_quote ::
    "nat \<Rightarrow> runtime \<Rightarrow> string \<Rightarrow> nat \<Rightarrow> (runtime \<times> result) option"
where
  "lisp_parse_value_internal 0 rt input i0 = None"
| "lisp_parse_value_internal (Suc k) rt input i0 =
     (let i = skip_space_and_comments input i0; c = rd input i
      in if c = CHR 0x22 then Some (lisp_parse_string rt input i)
         else if c = NUL then Some (rt, return_result None i)
         else if c = CHR '')'' then Some (rt, return_result (Some LNil) (i + 1))
         else if c = CHR ''('' then lisp_parse_list_or_sexp k rt input (i + 1)
         else if c = CHR 0x60 \<or> c = CHR '','' \<or> c = CHR 0x27
              then lisp_parse_quote k rt input i
         else if isdigit c then lisp_parse_integer rt input i
         else lisp_parse_symbol rt input i)"
| "lisp_parse_list_or_sexp 0 rt input i0 = None"
| "lisp_parse_list_or_sexp (Suc k) rt input i0 =
     (let i = skip_space_and_comments input i0
      in if rd input i = NUL
         then Some (rt\<lparr>error := Some ''unexpected eof while parsing list''\<rparr>,
                    return_result_err None i LE_EOF)
         else if rd input i = CHR '')'' then Some (rt, return_result (Some LNil) (i + 1))
         else (case lisp_parse_value_internal k rt input i of
                 None \<Rightarrow> None
               | Some (rt1, r) \<Rightarrow>
                   if rerror r \<noteq> LE_OK then Some (rt1, r)
                   else (case result r of
                           None \<Rightarrow> Some (rt1, return_result_err None (index r) LE_ONE)
                         | Some v \<Rightarrow> parse_list_loop k rt1 input (index r) [v])))"
| "parse_list_loop 0 rt input i0 acc = None"
| "parse_list_loop (Suc k) rt input i0 acc =
     (let i = skip_space_and_comments input i0
      in if rd input i = NUL
         then Some (rt\<lparr>error := Some ''unexpected eof while parsing list''\<rparr>,
                    return_result_err None i LE_EOF)
         else if rd input i = CHR ''.''
         then (case lisp_parse_value_internal k rt input (i + 1) of
                 None \<Rightarrow> None
               | Some (rt1, r) \<Rightarrow>
                   if rerror r \<noteq> LE_OK then Some (rt1, r)
                   else (case result r of
                           None \<Rightarrow> Some (rt1, return_result_err None (index r) LE_ONE)
                         | Some v \<Rightarrow>
                             (let j = skip_space_and_comments input (index r)
                              in if rd input j \<noteq> CHR '')''
                                 then Some (rt1\<lparr>error := Some ''bad s-expression form''\<rparr>,
                                            return_result_err None j LE_SYNTAX)
                                 else Some (rt1, return_result
                                              (Some (foldr lisp_list_new acc v)) (j + 1)))))
         else if rd input i = CHR '')''
         then Some (rt, return_result (Some (foldr lisp_list_new acc LNil)) (i + 1))
         else (case lisp_parse_value_internal k rt input i of
                 None \<Rightarrow> None
               | Some (rt1, r) \<Rightarrow>
                   if rerror r \<noteq> LE_OK then Some (rt1, r)
                   else (case result r of
                           None \<Rightarrow> Some (rt1, return_result_err None (index r) LE_ONE)
                         | Some v \<Rightarrow> parse_list_loop k rt1 input (index r) (acc @ [v]))))"
| "lisp_parse_quote 0 rt input i = None"
| "lisp_parse_quote (Suc k) rt input i =
     (case lisp_parse_value_internal k rt input (i + 1) of
        None \<Rightarrow> None
      | Some (rt1, r) \<Rightarrow>
          if rerror r \<noteq> LE_OK then Some (rt1, r)
          else (case result r of
                  None \<Rightarrow> Some (rt1, return_result_err None (index r) LE_ONE)
                | Some v \<Rightarrow>
                    (if rd input i = CHR 0x27
                     then Some (rt1, r\<lparr>result := Some (lisp_quote_with v ''quote'')\<rparr>)
                     else if rd input i = CHR 0x60
                     then Some (rt1, r\<lparr>result := Some (lisp_quote_with v ''quasiquote'')\<rparr>)
                     else if rd input i = CHR '',''
                     then Some (rt1, r\<lparr>result := Some (lisp_quote_with v ''unquote'')\<rparr>)
                     else None)))"
  by pat_completeness auto
termination
  by (relation "measure (\<lambda>x. case x of
          Inl (Inl (k, _)) \<Rightarrow> k | Inl (Inr (k, _)) \<Rightarrow> k
        | Inr (Inl (k, _)) \<Rightarrow> k | Inr (Inr (k, _)) \<Rightarrow> k)") auto

definition set_error_lineno :: "runtime \<Rightarrow> string \<Rightarrow> nat \<Rightarrow> runtime" where
  "set_error_lineno rt input i =
     rt\<lparr>error_line := 1 + length (filter (\<lambda>k. rd input k = CHR 0x0A) [0..<i])\<rparr>"

text \<open>
  \<open>lisp_parse_value\<close> returns the number of bytes consumed, \<open>-1\<close> on an error, and
  stores the value (or \<open>NULL\<close>) in \<open>*output\<close>: the model returns the runtime, the
  output and the byte count.
\<close>

definition lisp_parse_value ::
  "nat \<Rightarrow> runtime \<Rightarrow> string \<Rightarrow> nat \<Rightarrow> (runtime \<times> lisp_value option \<times> int) option" where
  "lisp_parse_value fuel rt input i =
     (case lisp_parse_value_internal fuel rt input i of
        None \<Rightarrow> None
      | Some (rt1, r) \<Rightarrow>
          if rerror r \<noteq> LE_OK
          then Some (set_error_lineno (rt1\<lparr>err_num := rerror r\<rparr>) input (index r),
                     result r, - 1)
          else Some (rt1, result r, int (index r) - int i))"
subsection \<open>Notions used to state the reader's properties\<close>

text \<open>A runtime on which no error is recorded.\<close>

definition rt_clear :: runtime where
  "rt_clear = \<lparr>error = None, err_num = LE_OK, error_line = 0\<rparr>"


text \<open>
  The number of dots of a token, its segments between the dots, and the nested attribute
  access \<open>(getattr (getattr a (quote b)) (quote c))\<close> built from the segments
  \<open>a\<close>, \<open>b\<close>, \<open>c\<close>, as the specification words it.
\<close>

definition dots :: "string \<Rightarrow> nat" where
  "dots t = length (filter (\<lambda>c. c = CHR ''.'') t)"

function split_dots :: "string \<Rightarrow> string list" where
  "split_dots t =
     (if CHR ''.'' \<in> set t
      then takeWhile (\<lambda>c. c \<noteq> CHR ''.'') t
             # split_dots (drop (Suc (length (takeWhile (\<lambda>c. c \<noteq> CHR ''.'') t))) t)
      else [t])"
  by pat_completeness auto
termination
proof (relation "measure length", goal_cases)
  case 1
  show ?case by simp
next
  case (2 t)
  then have "t \<noteq> []" by auto
  then show ?case by simp
qed

declare split_dots.simps [simp del]

definition getattr_form :: "lisp_value \<Rightarrow> string \<Rightarrow> lisp_value" where
  "getattr_form prev a =
     LCons (LSym ''getattr'')
       (LCons prev (LCons (LCons (LSym ''quote'') (LCons (LSym a) LNil)) LNil))"

definition attr_chain :: "string list \<Rightarrow> lisp_value" where
  "attr_chain segs = foldl getattr_form (LSym (hd segs)) (tl segs)"

section \<open>The primitives (builtins.c)\<close>

subsection \<open>What the primitives use from the rest of the interpreter\<close>

text \<open>
  The evaluator itself (\<open>lisp_eval\<close>, \<open>lisp_call\<close>) is not part of the sources at
  hand: the primitives take it as a parameter. It receives the runtime, the scope and a
  value (for a call: the callable and its argument list) and returns the runtime with
  the value, or with \<open>NULL\<close> after recording an error. The runtime is the record of
  the error state, extended by whatever else the evaluator keeps (scopes, bindings).
\<close>

type_synonym scope = nat

type_synonym 'a evaluator =
  "'a runtime_scheme \<Rightarrow> scope \<Rightarrow> lisp_value \<Rightarrow> 'a runtime_scheme \<times> lisp_value option"

type_synonym 'a caller =
  "'a runtime_scheme \<Rightarrow> scope \<Rightarrow> lisp_value \<Rightarrow> lisp_value
     \<Rightarrow> 'a runtime_scheme \<times> lisp_value option"

text \<open>
  Modelled from the spec: \<open>lisp_error\<close> is defined outside the sources at hand. A
  failing operation sets the error kind and the message on the runtime and returns the
  sentinel \<open>NULL\<close>.
\<close>

definition lisp_error ::
  "'a runtime_scheme \<Rightarrow> lisp_errno \<Rightarrow> string \<Rightarrow> 'a runtime_scheme \<times> lisp_value option" where
  "lisp_error rt e msg = (rt\<lparr>error := Some msg, err_num := e\<rparr>, None)"

text \<open>
  Modelled from the spec: the macro \<open>lisp_for_each\<close> and \<open>lisp_list_length\<close> come
  from a header and a file outside the sources at hand. \<open>lisp_for_each\<close> visits the
  cells of a list along \<open>right\<close> until it reaches nil (or a value that is no list
  cell); \<open>list_cells\<close> gives the \<open>left\<close> of the cells visited, and
  \<open>lisp_list_length\<close> counts them.
\<close>

fun list_cells :: "lisp_value \<Rightarrow> lisp_value list" where
  "list_cells (LCons a d) = a # list_cells d"
| "list_cells v = []"

definition lisp_list_length :: "lisp_value \<Rightarrow> nat" where
  "lisp_list_length l = length (list_cells l)"

text \<open>
  Modelled from the spec: \<open>lisp_get_args\<close> is defined outside the sources at hand.
  It matches the argument list against a format string: \<open>i\<close> and \<open>d\<close> an integer,
  \<open>s\<close> a symbol, \<open>S\<close> a string, \<open>l\<close> a list, \<open>*\<close> any value, \<open>R\<close> the
  remaining list as it is. A failure raises \<open>type\<close>, \<open>too-few\<close> or \<open>too-many\<close>;
  the wording of its messages is not specified, the texts below stand for it. On
  success the model returns the values bound, in order.
\<close>

definition arg_matches :: "char \<Rightarrow> lisp_value \<Rightarrow> bool" where
  "arg_matches c v =
     (if c = CHR ''i'' \<or> c = CHR ''d'' then (case v of LInt _ \<Rightarrow> True | _ \<Rightarrow> False)
      else if c = CHR ''s'' then (case v of LSym _ \<Rightarrow> True | _ \<Rightarrow> False)
      else if c = CHR ''S'' then (case v of LStr _ \<Rightarrow> True | _ \<Rightarrow> False)
      else if c = CHR ''l'' then (case v of LNil \<Rightarrow> True | LCons _ _ \<Rightarrow> True | _ \<Rightarrow> False)
      else c = CHR ''*'')"

fun lisp_get_args ::
  "'a runtime_scheme \<Rightarrow> lisp_value \<Rightarrow> string \<Rightarrow> 'a runtime_scheme \<times> lisp_value list option" where
  "lisp_get_args rt args [] =
     (if args = LNil then (rt, Some [])
      else (fst (lisp_error rt LE_2MANY ''too many arguments''), None))"
| "lisp_get_args rt args (c # fmt) =
     (if c = CHR ''R'' then (rt, Some [args])
      else (case args of
              LCons a rest \<Rightarrow>
                if arg_matches c a
                then (case lisp_get_args rt rest fmt of
                        (rt1, None) \<Rightarrow> (rt1, None)
                      | (rt1, Some vs) \<Rightarrow> (rt1, Some (a # vs)))
                else (fst (lisp_error rt LE_TYPE ''argument of the wrong type''), None)
            | _ \<Rightarrow> (fst (lisp_error rt LE_2FEW ''too few arguments''), None)))"

text \<open>
  Modelled from the spec: \<open>lisp_quote\<close> is defined outside the sources at hand; it
  wraps a value with \<open>quote\<close>.
\<close>

definition lisp_quote :: "lisp_value \<Rightarrow> lisp_value" where
  "lisp_quote v = lisp_quote_with v ''quote''"

subsection \<open>if\<close>

text \<open>
  \<open>lisp_builtin_if\<close> receives its arguments unevaluated. \<open>lisp_error_check\<close>
  returns \<open>NULL\<close> when the value is \<open>NULL\<close>.
\<close>

definition lisp_builtin_if ::
  "'a evaluator \<Rightarrow> 'a runtime_scheme \<Rightarrow> scope \<Rightarrow> lisp_value
     \<Rightarrow> 'a runtime_scheme \<times> lisp_value option" where
  "lisp_builtin_if lisp_eval rt scope a =
     (case lisp_get_args rt a ''***'' of
        (rt1, None) \<Rightarrow> (rt1, None)
      | (rt1, Some vs) \<Rightarrow>
          (case lisp_eval rt1 scope (vs ! 0) of
             (rt2, None) \<Rightarrow> (rt2, None)
           | (rt2, Some condition) \<Rightarrow>
               if (case condition of LInt x \<Rightarrow> x \<noteq> 0 | _ \<Rightarrow> False)
               then lisp_eval rt2 scope (vs ! 1)
               else lisp_eval rt2 scope (vs ! 2)))"

subsection \<open>reduce\<close>

definition lisp_new_pair_list :: "lisp_value \<Rightarrow> lisp_value \<Rightarrow> lisp_value" where
  "lisp_new_pair_list one two = LCons one (LCons two LNil)"

text \<open>The \<open>lisp_for_each\<close> loop of \<open>lisp_builtin_reduce\<close>.\<close>

fun reduce_loop ::
  "'a caller \<Rightarrow> 'a runtime_scheme \<Rightarrow> scope \<Rightarrow> lisp_value \<Rightarrow> lisp_value \<Rightarrow> lisp_value
     \<Rightarrow> 'a runtime_scheme \<times> lisp_value option" where
  "reduce_loop lisp_call rt scope callable initializer (LCons x rest) =
     (case lisp_call rt scope callable (lisp_new_pair_list initializer x) of
        (rt1, None) \<Rightarrow> (rt1, None)
      | (rt1, Some v) \<Rightarrow> reduce_loop lisp_call rt1 scope callable v rest)"
| "reduce_loop lisp_call rt scope callable initializer l = (rt, Some initializer)"

text \<open>
  In the two-argument form the list has at least two cells when \<open>list->left\<close> and
  \<open>list->right\<close> are read, so the last case of the inner \<open>case\<close> is never taken.
\<close>

definition lisp_builtin_reduce ::
  "'a caller \<Rightarrow> 'a runtime_scheme \<Rightarrow> scope \<Rightarrow> lisp_value
     \<Rightarrow> 'a runtime_scheme \<times> lisp_value option" where
  "lisp_builtin_reduce lisp_call rt scope args =
     (if lisp_list_length args = 2
      then (case lisp_get_args rt args ''*l'' of
              (rt1, None) \<Rightarrow> (rt1, None)
            | (rt1, Some vs) \<Rightarrow>
                if lisp_list_length (vs ! 1) < 2
                then lisp_error rt1 LE_2FEW ''reduce: list must have at least 2 entries''
                else (case vs ! 1 of
                        LCons initializer list \<Rightarrow>
                          reduce_loop lisp_call rt1 scope (vs ! 0) initializer list
                      | _ \<Rightarrow> (rt1, None)))
      else if lisp_list_length args = 3
      then (case lisp_get_args rt args ''**l'' of
              (rt1, None) \<Rightarrow> (rt1, None)
            | (rt1, Some vs) \<Rightarrow>
                if lisp_list_length (vs ! 2) < 1
                then lisp_error rt1 LE_2FEW ''reduce: list must have at least 1 entry''
                else reduce_loop lisp_call rt1 scope (vs ! 0) (vs ! 1) (vs ! 2))
      else lisp_error rt LE_2MANY ''reduce: 2 or 3 arguments required'')"

subsection \<open>map\<close>

text \<open>
  \<open>map\<close> builds its lists through pointers that start as \<open>NULL\<close>. A run that
  dereferences \<open>NULL\<close>, or reads \<open>left\<close> or \<open>right\<close> of an object that is no list,
  has no defined result in C: it is \<open>Fault\<close> here.
\<close>

datatype 'a exec = Fault | Done 'a

text \<open>
  \<open>get_quoted_left_items\<close>: \<open>acc\<close> holds the cells written so far, empty while
  \<open>left_items\<close> is \<open>NULL\<close>. A nil among the lists returns \<open>NULL\<close>; after the loop
  \<open>left_items->right\<close> is written, a \<open>NULL\<close> dereference when the loop has not run.
\<close>

fun get_quoted_left_items_loop :: "lisp_value \<Rightarrow> lisp_value list \<Rightarrow> lisp_value option exec" where
  "get_quoted_left_items_loop (LCons x rest) acc =
     (if x = LNil then Done None
      else (case x of
              LCons a d \<Rightarrow> get_quoted_left_items_loop rest (acc @ [lisp_quote a])
            | _ \<Rightarrow> Fault))"
| "get_quoted_left_items_loop l acc =
     (if acc = [] then Fault else Done (Some (foldr LCons acc LNil)))"

definition get_quoted_left_items :: "lisp_value option \<Rightarrow> lisp_value option exec" where
  "get_quoted_left_items list_of_lists =
     (case list_of_lists of
        None \<Rightarrow> Fault
      | Some l \<Rightarrow> get_quoted_left_items_loop l [])"

text \<open>
  \<open>advance_lists\<close>: an element that is no list returns \<open>NULL\<close>. For a nil element
  the code stores the \<open>right\<close> of nil, a \<open>NULL\<close>, in a cell; a list here cannot hold
  it, and \<open>lisp_builtin_map\<close> never gets there (it advances only after
  \<open>get_quoted_left_items\<close> found every list non-nil): that case is \<open>Fault\<close>.
\<close>

fun advance_lists_loop :: "lisp_value \<Rightarrow> lisp_value list \<Rightarrow> lisp_value option exec" where
  "advance_lists_loop (LCons x rest) acc =
     (case x of
        LCons a d \<Rightarrow> advance_lists_loop rest (acc @ [d])
      | LNil \<Rightarrow> Fault
      | _ \<Rightarrow> Done None)"
| "advance_lists_loop l acc =
     (if acc = [] then Fault else Done (Some (foldr LCons acc LNil)))"

definition advance_lists :: "lisp_value option \<Rightarrow> lisp_value option exec" where
  "advance_lists list_of_lists =
     (case list_of_lists of
        None \<Rightarrow> Fault
      | Some l \<Rightarrow> advance_lists_loop l [])"

lemma advance_lists_loop_size:
  "advance_lists_loop l acc = Done (Some l') \<Longrightarrow>
     size l' \<le> size (foldr LCons acc LNil) + size l
     \<and> ((\<exists>x r. l = LCons x r) \<longrightarrow> size l' < size (foldr LCons acc LNil) + size l)"
proof (induction l acc rule: advance_lists_loop.induct)
  case (1 x rest acc)
  from "1.prems" obtain a d where x: "x = LCons a d"
    by (cases x) simp_all
  with "1.prems" have "advance_lists_loop rest (acc @ [d]) = Done (Some l')" by simp
  from "1.IH" [OF x this]
  have "size l' \<le> size (foldr LCons (acc @ [d]) LNil) + size rest" by simp
  moreover have "size (foldr LCons (acc @ [d]) LNil) = size (foldr LCons acc LNil) + size d + 1"
    by (induction acc) simp_all
  ultimately show ?case using x by simp
qed (simp_all split: if_splits)

text \<open>
  The \<open>while\<close> loop of \<open>lisp_builtin_map\<close>: \<open>acc\<close> holds the results written so
  far, empty while \<open>ret\<close> is \<open>NULL\<close>; \<open>map_args\<close> may have become \<open>NULL\<close>. After
  the loop \<open>ret->right\<close> is written, a \<open>NULL\<close> dereference when the loop has not run.
\<close>

function map_loop ::
  "'a caller \<Rightarrow> 'a runtime_scheme \<Rightarrow> scope \<Rightarrow> lisp_value \<Rightarrow> lisp_value option
     \<Rightarrow> lisp_value list \<Rightarrow> ('a runtime_scheme \<times> lisp_value option) exec" where
  "map_loop lisp_call rt scope f map_args acc =
     (case get_quoted_left_items map_args of
        Fault \<Rightarrow> Fault
      | Done None \<Rightarrow>
          (if acc = [] then Fault else Done (rt, Some (foldr LCons acc LNil)))
      | Done (Some args) \<Rightarrow>
          (case lisp_call rt scope f args of
             (rt1, None) \<Rightarrow> Done (rt1, None)
           | (rt1, Some v) \<Rightarrow>
               (case advance_lists map_args of
                  Fault \<Rightarrow> Fault
                | Done m \<Rightarrow> map_loop lisp_call rt1 scope f m (acc @ [v]))))"
  by pat_completeness auto
termination
proof (relation "measure (\<lambda>(lisp_call, rt, scope, f, map_args, acc).
                   case map_args of None \<Rightarrow> 0 | Some l \<Rightarrow> Suc (size l))", goal_cases)
  case 1
  show ?case by simp
next
  case prems: (2 lisp_call rt scope f map_args acc x2 args rt1 r v m)
  from prems(1,2) obtain l where l: "map_args = Some l"
    by (cases map_args) (simp_all add: get_quoted_left_items_def)
  show ?case
  proof (cases m)
    case None
    with l show ?thesis by simp
  next
    case (Some l')
    with prems l have adv: "advance_lists_loop l [] = Done (Some l')"
      by (simp add: advance_lists_def)
    then have "\<exists>x r. l = LCons x r" by (cases l) simp_all
    with advance_lists_loop_size [OF adv] have "size l' < size l" by simp
    with l Some show ?thesis by simp
  qed
qed

declare map_loop.simps [simp del]

definition is_list_type :: "lisp_value \<Rightarrow> bool" where
  "is_list_type v = (case v of LNil \<Rightarrow> True | LCons _ _ \<Rightarrow> True | _ \<Rightarrow> False)"

text \<open>
  \<open>lisp_builtin_map\<close>. Its argument list is nil or a cell. On nil, \<open>map_args->right\<close>
  is \<open>NULL\<close> and reading its type is a \<open>NULL\<close> dereference. On a cell, the test
  \<open>map_args->right->type != type_list\<close> also passes when \<open>right\<close> is nil.
\<close>

definition lisp_builtin_map ::
  "'a caller \<Rightarrow> 'a runtime_scheme \<Rightarrow> scope \<Rightarrow> lisp_value
     \<Rightarrow> ('a runtime_scheme \<times> lisp_value option) exec" where
  "lisp_builtin_map lisp_call rt scope map_args =
     (case map_args of
        LCons f r \<Rightarrow>
          if \<not> is_list_type r
          then Done (lisp_error rt LE_2FEW ''need at least two arguments'')
          else map_loop lisp_call rt scope f (Some r) []
      | _ \<Rightarrow> Fault)"

subsection \<open>Addition\<close>

text \<open>
  \<open>lisp_builtin_plus\<close>, used below as a callable to run \<open>reduce\<close> and \<open>map\<close> on
  concrete lists. The sum is a C \<open>int\<close>; where it overflows, which is undefined in C,
  the model wraps.
\<close>

fun plus_loop :: "lisp_value \<Rightarrow> 32 word \<Rightarrow> 32 word option" where
  "plus_loop (LCons a rest) s =
     (case a of LInt x \<Rightarrow> plus_loop rest (s + x) | _ \<Rightarrow> None)"
| "plus_loop l s = Some s"

definition lisp_builtin_plus ::
  "'a runtime_scheme \<Rightarrow> scope \<Rightarrow> lisp_value \<Rightarrow> 'a runtime_scheme \<times> lisp_value option" where
  "lisp_builtin_plus rt scope args =
     (case plus_loop args 0 of
        None \<Rightarrow> lisp_error rt LE_TYPE ''expect integers for addition''
      | Some s \<Rightarrow> (rt, Some (LInt s)))"

subsection \<open>Notions used to state the primitives' properties\<close>

text \<open>The proper list of the values \<open>xs\<close>: one cell each, the last \<open>right\<close> nil.\<close>

definition proper_list :: "lisp_value list \<Rightarrow> lisp_value" where
  "proper_list xs = foldr LCons xs LNil"

text \<open>
  The left fold of a step that threads the runtime and may fail, and a callable that
  computes the function \<open>g\<close> of two arguments without changing the runtime.
\<close>

fun fold_call ::
  "('s \<Rightarrow> lisp_value \<Rightarrow> lisp_value \<Rightarrow> 's \<times> lisp_value option)
     \<Rightarrow> 's \<Rightarrow> lisp_value \<Rightarrow> lisp_value list \<Rightarrow> 's \<times> lisp_value option" where
  "fold_call step rt a [] = (rt, Some a)"
| "fold_call step rt a (x # xs) =
     (case step rt a x of
        (rt1, None) \<Rightarrow> (rt1, None)
      | (rt1, Some v) \<Rightarrow> fold_call step rt1 v xs)"

definition computes ::
  "'a caller \<Rightarrow> 'a runtime_scheme \<Rightarrow> scope \<Rightarrow> lisp_value
     \<Rightarrow> (lisp_value \<Rightarrow> lisp_value \<Rightarrow> lisp_value) \<Rightarrow> bool" where
  "computes lisp_call rt scope f g =
     (\<forall>a b. lisp_call rt scope f (lisp_new_pair_list a b) = (rt, Some (g a b)))"

text \<open>
  Two stand-ins for the evaluator, to run the primitives on concrete inputs: the rule
  for self-evaluating values (integers, strings, nil) alone, and a call that applies the
  addition above whatever the callable.
\<close>

definition eval_self :: "'a evaluator" where
  "eval_self rt scope v =
     (case v of
        LSym _ \<Rightarrow> lisp_error rt LE_ERROR ''symbols need a scope''
      | LCons _ _ \<Rightarrow> lisp_error rt LE_ERROR ''calls need the evaluator''
      | _ \<Rightarrow> (rt, Some v))"

definition call_plus :: "'a caller" where
  "call_plus rt scope callable args = lisp_builtin_plus rt scope args"

section \<open>The heap (gc.c)\<close>

subsection \<open>Objects and the runtime's object list\<close>

text \<open>
  Where the code writes to objects that others point to, values are addresses into a
  store. Every object has the header of \<open>lisp_value\<close>: its type, its \<open>mark\<close> and
  the \<open>next\<close> link of the runtime's list of all objects. The type and the fields that
  follow the header are the \<open>payload\<close>; a pointer field that may be \<open>NULL\<close> is an
  \<open>addr option\<close>. The nil singleton is of list type with both fields \<open>NULL\<close>.
\<close>

type_synonym addr = nat

datatype gc_mark = GC_NOMARK | GC_QUEUED | GC_MARKED

datatype payload =
    List "addr option" "addr option"
  | Integer "32 word"
  | String string
  | Symbol string
  | Builtin
  | Lambda addr addr addr bool
  | Scope "(addr \<times> addr) list" "addr option"

record obj =
  mark :: gc_mark
  nxt :: "addr option"
  payload :: payload

text \<open>
  The store is the list of its slots: an address is an index, a slot holds an object or
  is free (never allocated beyond the end, \<open>None\<close> after \<open>lisp_free\<close>). Reading or
  writing a slot that holds no object is undefined in C; the functions below return
  \<open>None\<close> for a run that does so.
\<close>

type_synonym store = "obj option list"

definition lookup :: "store \<Rightarrow> addr \<Rightarrow> obj option" where
  "lookup h a = (if a < length h then h ! a else None)"

definition lisp_free :: "store \<Rightarrow> addr \<Rightarrow> store" where
  "lisp_free h a = h[a := None]"

text \<open>
  The part of \<open>lisp_runtime\<close> that the collector uses, on top of the error state: the
  store, \<open>head\<close> and \<open>tail\<close> of the object list, the nil singleton, and the ring
  buffer \<open>rb\<close> (a queue: \<open>rb_push_back\<close> appends, \<open>rb_pop_front\<close> takes the first).
\<close>

record lisp_runtime = runtime +
  heap :: store
  head :: addr
  tail :: addr
  nil :: addr
  rb :: "addr list"

text \<open>
  \<open>lisp_init\<close>: the store holds the nil singleton alone, which is the head and the
  tail of the object list.
\<close>

definition nil_obj :: obj where
  "nil_obj = \<lparr>mark = GC_NOMARK, nxt = None, payload = List None None\<rparr>"

definition lisp_init :: lisp_runtime where
  "lisp_init = \<lparr>error = None, err_num = LE_OK, error_line = 0,
                 heap = [Some nil_obj], head = 0, tail = 0, nil = 0, rb = []\<rparr>"

subsection \<open>Mark\<close>

text \<open>
  Modelled from the spec: the child iterator \<open>expand\<close> of the type descriptors is
  defined outside the sources at hand. It yields every value pointer the object owns:
  the two fields of a list cell (none for nil), the parameters, the body and the
  captured scope of a lambda, the parent and the symbols and values of a scope.
\<close>

fun expand :: "payload \<Rightarrow> addr list" where
  "expand (List l r) = (case l of None \<Rightarrow> [] | Some a \<Rightarrow> [a]) @ (case r of None \<Rightarrow> [] | Some a \<Rightarrow> [a])"
| "expand (Lambda args code closure kind) = [args, code, closure]"
| "expand (Scope bindings up) =
     (case up of None \<Rightarrow> [] | Some a \<Rightarrow> [a]) @ concat (map (\<lambda>(k, v). [k, v]) bindings)"
| "expand p = []"

text \<open>
  The inner \<open>while\<close> loop of \<open>lisp_mark\<close> over the children \<open>cs\<close> of the value just
  marked: a child whose mark is \<open>GC_NOMARK\<close> is set to \<open>GC_QUEUED\<close> and pushed. The
  last argument records every \<open>rb_push_back\<close> of the call, in order: the value pushed
  and the mark it carries then.
\<close>

fun mark_children ::
  "store \<Rightarrow> addr list \<Rightarrow> (addr \<times> gc_mark) list \<Rightarrow> addr list
     \<Rightarrow> (store \<times> addr list \<times> (addr \<times> gc_mark) list) option" where
  "mark_children h q pushed [] = Some (h, q, pushed)"
| "mark_children h q pushed (c # cs) =
     (case lookup h c of
        None \<Rightarrow> None
      | Some oc \<Rightarrow>
          if mark oc = GC_NOMARK
          then mark_children (h[c := Some (oc\<lparr>mark := GC_QUEUED\<rparr>)]) (q @ [c])
                 (pushed @ [(c, GC_QUEUED)]) cs
          else mark_children h q pushed cs)"

definition unmarked :: "obj option \<Rightarrow> nat" where
  "unmarked s = (case s of None \<Rightarrow> 0 | Some ob \<Rightarrow> if mark ob = GC_NOMARK then 1 else 0)"

definition unmarked_count :: "store \<Rightarrow> nat" where
  "unmarked_count h = sum_list (map unmarked h)"

lemma unmarked_count_update:
  assumes "a < length h"
  shows "unmarked_count (h[a := s]) + unmarked (h ! a) = unmarked_count h + unmarked s"
  using assms
  by (induction h arbitrary: a) (auto simp: unmarked_count_def split: nat.splits)

lemma mark_children_measure:
  "mark_children h q pushed cs = Some (h', q', pushed') \<Longrightarrow>
     unmarked_count h' + length q' \<le> unmarked_count h + length q"
proof (induction cs arbitrary: h q pushed)
  case Nil
  then show ?case by simp
next
  case (Cons c cs)
  from Cons.prems obtain oc where oc: "lookup h c = Some oc"
    by (cases "lookup h c") simp_all
  then have lt: "c < length h" and hc: "h ! c = Some oc"
    by (auto simp: lookup_def split: if_splits)
  show ?case
  proof (cases "mark oc = GC_NOMARK")
    case True
    let ?h1 = "h[c := Some (oc\<lparr>mark := GC_QUEUED\<rparr>)]"
    from Cons.prems oc True
    have "mark_children ?h1 (q @ [c]) (pushed @ [(c, GC_QUEUED)]) cs = Some (h', q', pushed')"
      by simp
    from Cons.IH [OF this]
    have "unmarked_count h' + length q' \<le> unmarked_count ?h1 + length (q @ [c])" .
    moreover have "unmarked_count ?h1 + 1 = unmarked_count h"
      using unmarked_count_update [OF lt, of "Some (oc\<lparr>mark := GC_QUEUED\<rparr>)"] hc True
      by (simp add: unmarked_def)
    ultimately show ?thesis by simp
  next
    case False
    with Cons.prems oc have "mark_children h q pushed cs = Some (h', q', pushed')" by simp
    from Cons.IH [OF this] show ?thesis .
  qed
qed

text \<open>
  The outer \<open>while\<close> loop of \<open>lisp_mark\<close>: pop the first value, mark it, visit its
  children.
\<close>

function mark_loop ::
  "store \<Rightarrow> addr list \<Rightarrow> (addr \<times> gc_mark) list
     \<Rightarrow> (store \<times> (addr \<times> gc_mark) list) option" where
  "mark_loop h [] pushed = Some (h, pushed)"
| "mark_loop h (v # q) pushed =
     (case lookup h v of
        None \<Rightarrow> None
      | Some ov \<Rightarrow>
          (case mark_children (h[v := Some (ov\<lparr>mark := GC_MARKED\<rparr>)]) q pushed
                  (expand (payload ov)) of
             None \<Rightarrow> None
           | Some (h', q', pushed') \<Rightarrow> mark_loop h' q' pushed'))"
  by pat_completeness auto
termination
proof (relation "measure (\<lambda>(h, q, pushed). unmarked_count h + length q)", goal_cases)
  case 1
  show ?case by simp
next
  case prems: (2 h v q pushed ov r h' r' q' pushed')
  from prems(1) have lt: "v < length h" and hv: "h ! v = Some ov"
    by (auto simp: lookup_def split: if_splits)
  let ?h1 = "h[v := Some (ov\<lparr>mark := GC_MARKED\<rparr>)]"
  from prems have "mark_children ?h1 q pushed (expand (payload ov)) = Some (h', q', pushed')"
    by simp
  from mark_children_measure [OF this]
  have "unmarked_count h' + length q' \<le> unmarked_count ?h1 + length q" .
  moreover have "unmarked_count ?h1 \<le> unmarked_count h"
    using unmarked_count_update [OF lt, of "Some (ov\<lparr>mark := GC_MARKED\<rparr>)"] hv
    by (simp add: unmarked_def)
  ultimately show ?case by simp
qed

text \<open>
  \<open>lisp_mark\<close> pushes the root as it is and runs the loop, which leaves the queue
  empty. \<open>lisp_mark_pushed\<close> also gives the record of the pushes.
\<close>

definition push_root :: "lisp_runtime \<Rightarrow> addr \<Rightarrow> lisp_runtime" where
  "push_root rt v = rt\<lparr>rb := rb rt @ [v]\<rparr>"

definition lisp_mark_pushed ::
  "lisp_runtime \<Rightarrow> addr \<Rightarrow> (lisp_runtime \<times> (addr \<times> gc_mark) list) option" where
  "lisp_mark_pushed rt v =
     (case lookup (heap rt) v of
        None \<Rightarrow> None
      | Some ov \<Rightarrow>
          (case mark_loop (heap rt) (rb (push_root rt v)) [(v, mark ov)] of
             None \<Rightarrow> None
           | Some (h', pushed) \<Rightarrow> Some (rt\<lparr>heap := h', rb := []\<rparr>, pushed)))"

definition lisp_mark :: "lisp_runtime \<Rightarrow> addr \<Rightarrow> lisp_runtime option" where
  "lisp_mark rt v = map_option fst (lisp_mark_pushed rt v)"

subsection \<open>Sweep\<close>

text \<open>
  The \<open>while\<close> loop of \<open>lisp_sweep\<close> on \<open>cur\<close>: an object after \<open>cur\<close> that is
  not marked is unlinked and freed; otherwise the mark of \<open>cur\<close> is reset and
  \<open>cur\<close> moves on. After the loop the mark of the last \<open>cur\<close> is reset; the
  function returns the store and that last \<open>cur\<close>. Every step frees an object or
  resets a mark, so the loop ends on every store.
\<close>

definition sweep_weight :: "obj option \<Rightarrow> nat" where
  "sweep_weight s =
     (case s of None \<Rightarrow> 0 | Some ob \<Rightarrow> if mark ob = GC_MARKED then 4 else 2)"

definition sweep_measure :: "store \<Rightarrow> addr \<Rightarrow> nat" where
  "sweep_measure h cur =
     sum_list (map sweep_weight h)
       + (case lookup h cur of
            None \<Rightarrow> 0
          | Some oc \<Rightarrow> if mark oc = GC_MARKED then 0 else 1)"

lemma sum_weight_update:
  "a < length h \<Longrightarrow>
     sum_list (map w (h[a := s])) + w (h ! a) = sum_list (map w h) + (w s :: nat)"
  by (induction h arbitrary: a) (auto split: nat.splits)

lemma lookup_update:
  "lookup (h[a := s]) b = (if b = a \<and> a < length h then s else lookup h b)"
  by (simp add: lookup_def)

lemma lookup_Some_nth: "lookup h a = Some ob \<Longrightarrow> a < length h \<and> h ! a = Some ob"
  by (auto simp: lookup_def split: if_splits)

lemma sweep_free_decreases:
  assumes oc: "lookup h cur = Some oc" and n: "nxt oc = Some n"
      and on: "lookup h n = Some on" and m: "mark on \<noteq> GC_MARKED"
      and oc': "lookup (lisp_free h n) cur = Some oc'"
  shows "sweep_measure ((lisp_free h n)[cur := Some (oc'\<lparr>nxt := nxt on\<rparr>)]) cur
           < sweep_measure h cur"
proof -
  from on have nlt: "n < length h" and hn: "h ! n = Some on" by (auto dest: lookup_Some_nth)
  from oc have clt: "cur < length h" and hc: "h ! cur = Some oc"
    by (auto dest: lookup_Some_nth)
  from oc' nlt have ne: "cur \<noteq> n" by (auto simp: lisp_free_def lookup_update)
  with oc' oc have same: "oc' = oc" by (simp add: lisp_free_def lookup_update)
  let ?h1 = "h[n := None]"
  let ?h2 = "?h1[cur := Some (oc\<lparr>nxt := nxt on\<rparr>)]"
  have w1: "sum_list (map sweep_weight ?h1) + 2 = sum_list (map sweep_weight h)"
    using sum_weight_update [OF nlt, of sweep_weight None] hn m
    by (simp add: sweep_weight_def)
  have "?h1 ! cur = Some oc" using ne hc by simp
  then have w2: "sum_list (map sweep_weight ?h2) = sum_list (map sweep_weight ?h1)"
    using sum_weight_update [of cur ?h1 sweep_weight "Some (oc\<lparr>nxt := nxt on\<rparr>)"] clt
    by (simp add: sweep_weight_def)
  have "lookup ?h2 cur = Some (oc\<lparr>nxt := nxt on\<rparr>)" using clt by (simp add: lookup_update)
  then show ?thesis
    using w1 w2 oc same by (simp add: sweep_measure_def lisp_free_def)
qed

lemma sweep_advance_decreases:
  assumes oc: "lookup h cur = Some oc" and n: "nxt oc = Some n"
      and on: "lookup h n = Some on" and m: "mark on = GC_MARKED"
  shows "sweep_measure (h[cur := Some (oc\<lparr>mark := GC_NOMARK\<rparr>)]) n < sweep_measure h cur"
proof -
  from oc have clt: "cur < length h" and hc: "h ! cur = Some oc"
    by (auto dest: lookup_Some_nth)
  let ?h1 = "h[cur := Some (oc\<lparr>mark := GC_NOMARK\<rparr>)]"
  have w: "sum_list (map sweep_weight ?h1) + (if mark oc = GC_MARKED then 2 else 0)
             = sum_list (map sweep_weight h)"
    using sum_weight_update [OF clt, of sweep_weight "Some (oc\<lparr>mark := GC_NOMARK\<rparr>)"] hc
    by (auto simp: sweep_weight_def split: if_splits)
  show ?thesis
  proof (cases "n = cur")
    case True
    with oc on m have "mark oc = GC_MARKED" by simp
    with w True clt oc show ?thesis by (simp add: sweep_measure_def lookup_update)
  next
    case False
    then have "lookup ?h1 n = Some on" using on by (simp add: lookup_update)
    with w m oc show ?thesis by (simp add: sweep_measure_def split: if_splits)
  qed
qed

function sweep_loop :: "store \<Rightarrow> addr \<Rightarrow> (store \<times> addr) option" where
  "sweep_loop h cur =
     (case lookup h cur of
        None \<Rightarrow> None
      | Some oc \<Rightarrow>
          (case nxt oc of
             None \<Rightarrow> Some (h[cur := Some (oc\<lparr>mark := GC_NOMARK\<rparr>)], cur)
           | Some n \<Rightarrow>
               (case lookup h n of
                  None \<Rightarrow> None
                | Some on \<Rightarrow>
                    if mark on \<noteq> GC_MARKED
                    then (case lookup (lisp_free h n) cur of
                            None \<Rightarrow> None
                          | Some oc' \<Rightarrow>
                              sweep_loop ((lisp_free h n)[cur := Some (oc'\<lparr>nxt := nxt on\<rparr>)])
                                cur)
                    else sweep_loop (h[cur := Some (oc\<lparr>mark := GC_NOMARK\<rparr>)]) n)))"
  by pat_completeness auto
termination
  by (relation "measure (\<lambda>(h, cur). sweep_measure h cur)")
     (auto intro: sweep_free_decreases sweep_advance_decreases)

declare sweep_loop.simps [simp del]

definition lisp_sweep :: "lisp_runtime \<Rightarrow> lisp_runtime option" where
  "lisp_sweep rt =
     (case sweep_loop (heap rt) (head rt) of
        None \<Rightarrow> None
      | Some (h', cur) \<Rightarrow> Some (rt\<lparr>heap := h', tail := cur\<rparr>))"

subsection \<open>Notions used to state the collector's properties\<close>

text \<open>
  The mark of the object at an address (\<open>None\<close> where there is none), and what the
  mark phase leaves alone: its link and its payload.
\<close>

definition mark_of :: "store \<Rightarrow> addr \<Rightarrow> gc_mark option" where
  "mark_of h a = map_option mark (lookup h a)"

definition shape_of :: "store \<Rightarrow> addr \<Rightarrow> (addr option \<times> payload) option" where
  "shape_of h a = map_option (\<lambda>ob. (nxt ob, payload ob)) (lookup h a)"

text \<open>
  The children of an object are the pointers its type's iterator yields; a value is
  reachable from a root by following children.
\<close>

definition children :: "store \<Rightarrow> addr \<Rightarrow> addr list" where
  "children h a = (case lookup h a of None \<Rightarrow> [] | Some ob \<Rightarrow> expand (payload ob))"

definition edges :: "store \<Rightarrow> (addr \<times> addr) set" where
  "edges h = {(a, c). c \<in> set (children h a)}"

definition reachable :: "store \<Rightarrow> addr \<Rightarrow> addr set" where
  "reachable h root = (edges h)\<^sup>* `` {root}"

text \<open>
  \<open>obj_list h p xs\<close>: following \<open>next\<close> from the pointer \<open>p\<close> visits exactly the
  objects \<open>xs\<close> and ends in \<open>NULL\<close>. A store is closed when no object points to a
  free slot.
\<close>

fun obj_list :: "store \<Rightarrow> addr option \<Rightarrow> addr list \<Rightarrow> bool" where
  "obj_list h p [] = (p = None)"
| "obj_list h p (x # xs) =
     (p = Some x \<and> (case lookup h x of None \<Rightarrow> False | Some ob \<Rightarrow> obj_list h (nxt ob) xs))"

definition closed :: "store \<Rightarrow> bool" where
  "closed h = (\<forall>a < length h. \<forall>c \<in> set (children h a). lookup h c \<noteq> None)"

text \<open>
  The state of a runtime between two collections, with \<open>xs\<close> its object list: the
  list starts at \<open>head\<close>, which is the nil singleton as \<open>lisp_init\<close> leaves it, and
  holds every object of the store once; the store is closed; every mark is
  \<open>GC_NOMARK\<close>; the queue is empty.
\<close>

definition between_collections :: "lisp_runtime \<Rightarrow> addr list \<Rightarrow> bool" where
  "between_collections rt xs =
     (obj_list (heap rt) (Some (head rt)) xs \<and> distinct xs
      \<and> (\<forall>a < length (heap rt). lookup (heap rt) a \<noteq> None \<longrightarrow> a \<in> set xs)
      \<and> closed (heap rt)
      \<and> (\<forall>a \<in> set xs. mark_of (heap rt) a = Some GC_NOMARK)
      \<and> rb rt = []
      \<and> head rt = nil rt)"

text \<open>
  The invariant of the outer loop of the mark phase behind the reachability result, for
  the store \<open>h0\<close> at the start, the current store \<open>h\<close> and the queue \<open>q\<close>:
  only marks have changed; a queued object is in the queue; the children of a marked
  object are no longer unmarked; whatever is in the queue or no longer unmarked is
  reachable from the root; no mark has gone back to unmarked; the root is waiting in the
  queue or marked.
\<close>

definition gc_inv :: "store \<Rightarrow> addr \<Rightarrow> store \<Rightarrow> addr list \<Rightarrow> bool" where
  "gc_inv h0 root h q =
     ((\<forall>a. shape_of h a = shape_of h0 a) \<and> length h = length h0
      \<and> (\<forall>a. mark_of h a = Some GC_QUEUED \<longrightarrow> a \<in> set q)
      \<and> (\<forall>a. mark_of h a = Some GC_MARKED \<longrightarrow>
             (\<forall>c \<in> set (children h0 a). mark_of h c \<noteq> Some GC_NOMARK))
      \<and> (\<forall>a. a \<in> set q \<or> mark_of h a = Some GC_QUEUED \<or> mark_of h a = Some GC_MARKED
             \<longrightarrow> a \<in> reachable h0 root)
      \<and> (\<forall>a. mark_of h a = Some GC_NOMARK \<longrightarrow> mark_of h0 a = Some GC_NOMARK)
      \<and> (root \<in> set q \<or> mark_of h root = Some GC_MARKED))"

text \<open>
  The invariant behind the record of the pushes: pushed values are distinct; each is
  still in the queue or marked; only the first of the queue may still be unmarked (the
  root, before it is popped); a value that has lost the mark unmarked has been pushed;
  the unmarked children of a value already popped have been pushed; every push after
  the first wrote \<open>GC_QUEUED\<close> on a value that was unmarked.
\<close>

definition push_inv :: "store \<Rightarrow> store \<Rightarrow> addr list \<Rightarrow> (addr \<times> gc_mark) list \<Rightarrow> bool" where
  "push_inv h0 h q pushed =
     (pushed \<noteq> [] \<and> distinct (map fst pushed) \<and> set q \<subseteq> fst ` set pushed
      \<and> (\<forall>a. shape_of h a = shape_of h0 a)
      \<and> (\<forall>c \<in> fst ` set pushed. mark_of h c = Some GC_MARKED \<or> c \<in> set q)
      \<and> (\<forall>c \<in> fst ` set pushed. mark_of h c = Some GC_NOMARK \<longrightarrow> q \<noteq> [] \<and> c = hd q)
      \<and> (\<forall>a. mark_of h a = Some GC_NOMARK \<longrightarrow> mark_of h0 a = Some GC_NOMARK)
      \<and> (\<forall>a. mark_of h0 a = Some GC_NOMARK \<longrightarrow> mark_of h a \<noteq> Some GC_NOMARK
             \<longrightarrow> a \<in> fst ` set pushed)
      \<and> (\<forall>c \<in> fst ` set pushed. c \<notin> set q \<longrightarrow>
             (\<forall>d \<in> set (children h0 c). mark_of h0 d = Some GC_NOMARK
                \<longrightarrow> d \<in> fst ` set pushed))
      \<and> (\<forall>(c, m) \<in> set (tl pushed). m = GC_QUEUED \<and> mark_of h0 c = Some GC_NOMARK))"

text \<open>
  A store to run the collector on: the nil singleton at 0; at 1 a scope that binds the
  symbol at 2 to the list cell at 3 and has no parent; the cell at 3 holds the integer
  at 4 and points back to itself; at 5 and 6 a cell and an integer that nothing
  reachable from the scope points to. The object list runs 0, 1, \<open>\<dots>\<close>, 6.
\<close>

definition example_store :: store where
  "example_store =
     [Some \<lparr>mark = GC_NOMARK, nxt = Some 1, payload = List None None\<rparr>,
      Some \<lparr>mark = GC_NOMARK, nxt = Some 2, payload = Scope [(2, 3)] None\<rparr>,
      Some \<lparr>mark = GC_NOMARK, nxt = Some 3, payload = Symbol ''loop''\<rparr>,
      Some \<lparr>mark = GC_NOMARK, nxt = Some 4, payload = List (Some 4) (Some 3)\<rparr>,
      Some \<lparr>mark = GC_NOMARK, nxt = Some 5, payload = Integer 7\<rparr>,
      Some \<lparr>mark = GC_NOMARK, nxt = Some 6, payload = List (Some 6) (Some 0)\<rparr>,
      Some \<lparr>mark = GC_NOMARK, nxt = None, payload = Integer 8\<rparr>]"

definition example_runtime :: lisp_runtime where
  "example_runtime = lisp_init\<lparr>heap := example_store, tail := 6\<rparr>"

section \<open>quasiquote (builtins.c)\<close>

text \<open>
  \<open>lisp_quasiquote\<close> is the one primitive that writes to a list cell it was given, so
  it is modelled on the store. The evaluator is again a parameter, here on addresses: it
  receives the runtime, the scope and a value and returns the runtime and the value, or
  \<open>NULL\<close>.
\<close>

type_synonym store_evaluator =
  "lisp_runtime \<Rightarrow> addr \<Rightarrow> addr \<Rightarrow> lisp_runtime \<times> addr option"

text \<open>
  Modelled from the spec: \<open>lisp_nil_p\<close> is defined outside the sources at hand; nil
  is the value of list type with empty payload.
\<close>

definition lisp_nil_p :: "payload \<Rightarrow> bool" where
  "lisp_nil_p p = (p = List None None)"

text \<open>The assignment \<open>vl->left = res\<close> to the list cell at \<open>c\<close>.\<close>

definition set_left :: "store \<Rightarrow> addr \<Rightarrow> addr option \<Rightarrow> store" where
  "set_left h c res =
     (case lookup h c of
        None \<Rightarrow> h
      | Some oc \<Rightarrow>
          (case payload oc of
             List l r \<Rightarrow> h[c := Some (oc\<lparr>payload := List res r\<rparr>)]
           | _ \<Rightarrow> h))"

text \<open>
  \<open>lisp_quasiquote\<close> and its \<open>lisp_for_each\<close> loop over the cells of \<open>v\<close>, on the
  current cell \<open>vl\<close>. The first argument bounds the depth of the calls; \<open>None\<close> says
  that the bound was too small or that the run read through \<open>NULL\<close> or a free slot.
  The loop ends at nil or at a value that is no list, and \<open>v\<close> is returned.
\<close>

function (sequential) lisp_quasiquote ::
    "nat \<Rightarrow> store_evaluator \<Rightarrow> lisp_runtime \<Rightarrow> addr \<Rightarrow> addr
       \<Rightarrow> (lisp_runtime \<times> addr option) option"
  and quasiquote_loop ::
    "nat \<Rightarrow> store_evaluator \<Rightarrow> lisp_runtime \<Rightarrow> addr \<Rightarrow> addr \<Rightarrow> addr option
       \<Rightarrow> (lisp_runtime \<times> addr option) option"
where
  "lisp_quasiquote 0 lisp_eval rt scope v = None"
| "lisp_quasiquote (Suc k) lisp_eval rt scope v =
     (case lookup (heap rt) v of
        None \<Rightarrow> None
      | Some ov \<Rightarrow>
          (case payload ov of
             List l r \<Rightarrow>
               if lisp_nil_p (payload ov) then Some (rt, Some v)
               else (case l of
                       None \<Rightarrow> None
                     | Some la \<Rightarrow>
                         (case lookup (heap rt) la of
                            None \<Rightarrow> None
                          | Some ol \<Rightarrow>
                              if payload ol = Symbol ''unquote''
                              then Some (lisp_eval rt scope v)
                              else quasiquote_loop k lisp_eval rt scope v (Some v)))
           | _ \<Rightarrow> Some (rt, Some v)))"
| "quasiquote_loop 0 lisp_eval rt scope v vl = None"
| "quasiquote_loop (Suc k) lisp_eval rt scope v vl =
     (case vl of
        None \<Rightarrow> None
      | Some c \<Rightarrow>
          (case lookup (heap rt) c of
             None \<Rightarrow> None
           | Some oc \<Rightarrow>
               (case payload oc of
                  List l r \<Rightarrow>
                    if lisp_nil_p (payload oc) then Some (rt, Some v)
                    else (case l of
                            None \<Rightarrow> None
                          | Some la \<Rightarrow>
                              (case lisp_quasiquote k lisp_eval rt scope la of
                                 None \<Rightarrow> None
                               | Some (rt1, res) \<Rightarrow>
                                   (case lookup (heap rt1) c of
                                      None \<Rightarrow> None
                                    | Some oc1 \<Rightarrow>
                                        (case payload oc1 of
                                           List l1 r1 \<Rightarrow>
                                             if res = None
                                             then Some (rt1\<lparr>heap := set_left (heap rt1) c res\<rparr>, None)
                                             else quasiquote_loop k lisp_eval
                                                    (rt1\<lparr>heap := set_left (heap rt1) c res\<rparr>)
                                                    scope v r1
                                         | _ \<Rightarrow> None))))
                | _ \<Rightarrow> Some (rt, Some v))))"
  by pat_completeness auto
termination
  by (relation "measure (\<lambda>x. case x of Inl (k, _) \<Rightarrow> k | Inr (k, _) \<Rightarrow> k)") auto

text \<open>
  \<open>lisp_builtin_quasiquote\<close> receives the unevaluated argument list, a list cell on
  the store: \<open>lisp_get_args\<close> with the format \<open>*\<close> asks for exactly one argument.
\<close>

definition lisp_builtin_quasiquote ::
  "nat \<Rightarrow> store_evaluator \<Rightarrow> lisp_runtime \<Rightarrow> addr \<Rightarrow> addr
     \<Rightarrow> (lisp_runtime \<times> addr option) option" where
  "lisp_builtin_quasiquote fuel lisp_eval rt scope arglist =
     (case lookup (heap rt) arglist of
        None \<Rightarrow> None
      | Some oa \<Rightarrow>
          (case payload oa of
             List (Some firstarg) (Some rest) \<Rightarrow>
               (case lookup (heap rt) rest of
                  None \<Rightarrow> None
                | Some orest \<Rightarrow>
                    if lisp_nil_p (payload orest)
                    then lisp_quasiquote fuel lisp_eval rt scope firstarg
                    else Some (fst (lisp_error rt LE_2MANY ''too many arguments''), None))
           | List None None \<Rightarrow> Some (fst (lisp_error rt LE_2FEW ''too few arguments''), None)
           | _ \<Rightarrow> None))"

subsection \<open>A template on a store\<close>

text \<open>
  A stand-in for the evaluator, to run \<open>quasiquote\<close> on a concrete store. Modelled
  from the spec, of \<open>lisp_eval\<close> only these rules: an integer, a string or nil
  evaluates to itself; the list \<open>(unquote y)\<close> evaluates to the value of \<open>y\<close>, here
  for such a \<open>y\<close>. Everything else needs scopes and the call protocol and fails in
  this stand-in.
\<close>

definition self_evaluating :: "store \<Rightarrow> addr \<Rightarrow> bool" where
  "self_evaluating h a =
     (case lookup h a of
        None \<Rightarrow> False
      | Some ob \<Rightarrow>
          (case payload ob of
             Integer x \<Rightarrow> True | String s \<Rightarrow> True | List None None \<Rightarrow> True | _ \<Rightarrow> False))"

definition eval_unquote_self :: store_evaluator where
  "eval_unquote_self rt scope v =
     (if self_evaluating (heap rt) v then (rt, Some v)
      else (case lookup (heap rt) v of
              None \<Rightarrow> (rt, None)
            | Some ov \<Rightarrow>
                (case payload ov of
                   List (Some f) (Some args) \<Rightarrow>
                     (case (lookup (heap rt) f, lookup (heap rt) args) of
                        (Some fo, Some ao) \<Rightarrow>
                          (case (payload fo, payload ao) of
                             (Symbol name, List (Some y) (Some e)) \<Rightarrow>
                               if name = ''unquote'' \<and> self_evaluating (heap rt) y
                                  \<and> map_option payload (lookup (heap rt) e) = Some (List None None)
                               then (rt, Some y)
                               else (fst (lisp_error rt LE_ERROR ''not evaluated by the stand-in''), None)
                           | _ \<Rightarrow> (fst (lisp_error rt LE_ERROR ''not evaluated by the stand-in''), None))
                      | _ \<Rightarrow> (fst (lisp_error rt LE_ERROR ''not evaluated by the stand-in''), None))
                 | _ \<Rightarrow> (fst (lisp_error rt LE_ERROR ''not evaluated by the stand-in''), None))))"

text \<open>
  A template on a store: nil at 0, the symbol
  \<open>unquote\<close> at 1, the integers 7, 1 and 2 at 2, 5 and 10; the two unquote forms
  \<open>(unquote 7)\<close> are the cells 4, 3 and 9, 8; the inner list \<open>(2 (unquote 7))\<close> is
  the cells 12, 11; the template \<open>(1 (unquote 7) (2 (unquote 7)))\<close> is the cells 15,
  14, 13; the cell 16 is the argument list that holds the template alone.
\<close>

definition cell :: "addr \<Rightarrow> addr \<Rightarrow> obj option" where
  "cell l r = Some \<lparr>mark = GC_NOMARK, nxt = None, payload = List (Some l) (Some r)\<rparr>"

definition atom :: "payload \<Rightarrow> obj option" where
  "atom p = Some \<lparr>mark = GC_NOMARK, nxt = None, payload = p\<rparr>"

definition template_store :: store where
  "template_store =
     [atom (List None None), atom (Symbol ''unquote''), atom (Integer 7),
      cell 2 0, cell 1 3, atom (Integer 1),
      atom (Integer 0), atom (Integer 0),
      cell 2 0, cell 1 8, atom (Integer 2),
      cell 9 0, cell 10 11,
      cell 12 0, cell 4 13, cell 5 14,
      cell 15 0]"

definition template_runtime :: lisp_runtime where
  "template_runtime = lisp_init\<lparr>heap := template_store\<rparr>"
section \<open>Properties of the reader\<close>

lemma symbol_char_not_NUL: "symbol_char c \<Longrightarrow> c \<noteq> NUL"
  by (simp add: symbol_char_def)

lemma rd_drop: "i < length s \<Longrightarrow> drop i s = rd s i # drop (Suc i) s"
  by (simp add: rd_def Cons_nth_drop_Suc)

lemma rd_symbol_char_lt: "symbol_char (rd s i) \<Longrightarrow> i < length s"
  by (auto simp: rd_def symbol_char_def split: if_splits)

lemma rd_hd_drop: "rd s i = (case drop i s of [] \<Rightarrow> NUL | c # _ \<Rightarrow> c)"
  by (cases "i < length s") (simp_all add: rd_drop, simp add: rd_def)

lemma symbol_scan_eq:
  "symbol_scan s i n d =
     (n + length (takeWhile symbol_char (drop (i + n) s)),
      d + dots (takeWhile symbol_char (drop (i + n) s)))"
proof (induction s i n d rule: symbol_scan.induct)
  case (1 s i n d)
  show ?case
  proof (cases "symbol_char (rd s (i + n))")
    case True
    then have lt: "i + n < length s" by (rule rd_symbol_char_lt)
    have "symbol_scan s i n d =
            symbol_scan s i (n + 1) (if rd s (i + n) = CHR ''.'' then d + 1 else d)"
      using True by (subst symbol_scan.simps) simp
    also have "\<dots> = (n + 1 + length (takeWhile symbol_char (drop (i + (n + 1)) s)),
        (if rd s (i + n) = CHR ''.'' then d + 1 else d)
          + dots (takeWhile symbol_char (drop (i + (n + 1)) s)))"
      using 1 True by simp
    finally show ?thesis
      using True rd_drop [OF lt] by (simp add: dots_def)
  next
    case False
    have "symbol_scan s i n d = (n, d)"
      using False by (subst symbol_scan.simps) simp
    moreover have "takeWhile symbol_char (drop (i + n) s) = []"
    proof (cases "i + n < length s")
      case True
      with False rd_drop [OF True] show ?thesis by simp
    next
      case False
      then show ?thesis by simp
    qed
    ultimately show ?thesis by (simp add: dots_def)
  qed
qed


lemma dots_0_iff: "dots t = 0 \<longleftrightarrow> CHR ''.'' \<notin> set t"
  by (auto simp: dots_def filter_empty_conv)

lemma dot_split:
  "CHR ''.'' \<in> set r \<Longrightarrow>
   r = takeWhile (\<lambda>c. c \<noteq> CHR ''.'') r
         @ CHR ''.'' # drop (Suc (length (takeWhile (\<lambda>c. c \<noteq> CHR ''.'') r))) r"
  by (induction r) auto

lemma take_takeWhile_len: "take (length (takeWhile P xs)) xs = takeWhile P xs"
  by (induction xs) auto

lemma takeWhile_dot_lt:
  "CHR ''.'' \<in> set r \<Longrightarrow> length (takeWhile (\<lambda>c. c \<noteq> CHR ''.'') r) < length r"
  by (induction r) auto

lemma dots_takeWhile: "dots (takeWhile (\<lambda>c. c \<noteq> CHR ''.'') r) = 0"
  by (auto simp: dots_0_iff dest: set_takeWhileD)

lemma dots_drop:
  assumes "CHR ''.'' \<in> set r"
  shows "dots r = Suc (dots (drop (Suc (length (takeWhile (\<lambda>c. c \<noteq> CHR ''.'') r))) r))"
proof -
  let ?a = "takeWhile (\<lambda>c. c \<noteq> CHR ''.'') r"
  let ?b = "drop (Suc (length ?a)) r"
  have "dots r = dots (?a @ CHR ''.'' # ?b)" using dot_split [OF assms] by simp
  also have "\<dots> = dots ?a + Suc (dots ?b)" by (simp add: dots_def)
  finally show ?thesis using dots_takeWhile [of r] by simp
qed

lemma strchr_dot:
  assumes "drop str s = r @ post" "\<forall>c\<in>set r. c \<noteq> NUL" "CHR ''.'' \<in> set r"
  shows "strchr s str (CHR ''.'') = Some (str + length (takeWhile (\<lambda>c. c \<noteq> CHR ''.'') r))"
proof -
  have t: "takeWhile (\<lambda>x. x \<noteq> NUL) (drop str s) = r @ takeWhile (\<lambda>x. x \<noteq> NUL) post"
    using assms(1,2) by (simp add: takeWhile_append2)
  have "takeWhile (\<lambda>c. c \<noteq> CHR ''.'') (r @ takeWhile (\<lambda>x. x \<noteq> NUL) post)
          = takeWhile (\<lambda>c. c \<noteq> CHR ''.'') r"
    using assms(3) by (intro takeWhile_append1 [of "CHR ''.''"]) simp_all
  with t assms(3) show ?thesis by (simp add: strchr_def)
qed

lemma c_substr_prefix:
  assumes "drop str s = r @ post" "\<forall>c\<in>set r. c \<noteq> NUL" "len \<le> length r"
  shows "c_substr s str len = take len r"
proof -
  have "take len (drop str s) = take len r" using assms(1,3) by simp
  moreover have "takeWhile (\<lambda>x. x \<noteq> NUL) (take len r) = take len r"
    using assms(2) by (auto simp: takeWhile_eq_all_conv dest: in_set_takeD)
  ultimately show ?thesis by (simp add: c_substr_def)
qed

lemma split_loop_eq:
  assumes "dots r = n" "dotcount = i + 1 + n" "drop str s = r @ post"
    "\<forall>c\<in>set r. c \<noteq> NUL" "remain = int (length r)"
  shows "split_loop s dotcount i str delim remain prev
           = Some (foldl getattr_form prev (split_dots r))"
  using assms
proof (induction n arbitrary: i str delim remain prev r)
  case 0
  then have nodot: "CHR ''.'' \<notin> set r" by (simp add: dots_0_iff)
  have seg: "c_substr s str (nat remain) = r"
    using c_substr_prefix [OF "0.prems"(3,4), of "length r"] "0.prems"(5) by simp
  have sd: "split_dots r = [r]" using nodot by (subst split_dots.simps) simp
  have "split_loop s dotcount i str delim remain prev
          = split_loop s dotcount (i + 1) (delim + 1) delim (remain - (remain + 1))
              (getattr_form prev r)"
    using "0.prems"(2) seg
    by (subst split_loop.simps)
       (simp add: getattr_form_def lisp_list_new_def lisp_quote_with_def)
  also have "\<dots> = Some (getattr_form prev r)"
    using "0.prems"(2) by (subst split_loop.simps) simp
  finally show ?case using sd by simp
next
  case (Suc n)
  let ?a = "takeWhile (\<lambda>c. c \<noteq> CHR ''.'') r"
  let ?k = "length ?a"
  let ?b = "drop (Suc ?k) r"
  from Suc.prems(1) have dot: "CHR ''.'' \<in> set r"
    using dots_0_iff [of r] by auto
  have r: "r = ?a @ CHR ''.'' # ?b" by (rule dot_split [OF dot])
  have klt: "?k < length r" by (rule takeWhile_dot_lt [OF dot])
  have sc: "strchr s str (CHR ''.'') = Some (str + ?k)"
    by (rule strchr_dot [OF Suc.prems(3,4) dot])
  have seg: "c_substr s str ?k = ?a"
    using c_substr_prefix [OF Suc.prems(3,4), of ?k] klt by (simp add: take_takeWhile_len)
  have dr: "drop (str + ?k + 1) s = ?b @ post"
  proof -
    have "drop (str + ?k + 1) s = drop (Suc ?k) (drop str s)" by (simp add: add.commute)
    also have "\<dots> = drop (Suc ?k) r @ post" using Suc.prems(3) klt by simp
    finally show ?thesis .
  qed
  have nb: "dots ?b = n" using dots_drop [OF dot] Suc.prems(1) by simp
  have nul: "\<forall>c\<in>set ?b. c \<noteq> NUL" using Suc.prems(4) by (auto dest: in_set_dropD)
  have rem: "remain - (int ?k + 1) = int (length ?b)"
    using Suc.prems(5) klt by simp
  have sd: "split_dots r = ?a # split_dots ?b" using dot by (subst split_dots.simps) simp
  have "split_loop s dotcount i str delim remain prev
          = split_loop s dotcount (i + 1) (str + ?k + 1) (str + ?k) (remain - (int ?k + 1))
              (getattr_form prev ?a)"
    using Suc.prems(2) sc seg
    by (subst split_loop.simps)
       (simp add: getattr_form_def lisp_list_new_def lisp_quote_with_def)
  also have "\<dots> = Some (foldl getattr_form (getattr_form prev ?a) (split_dots ?b))"
    using Suc.prems(2) by (intro Suc.IH [OF nb _ dr nul rem]) simp
  finally show ?case using sd by simp
qed

lemma split_symbol_eq:
  assumes "drop str s = tok @ post" "\<forall>c\<in>set tok. c \<noteq> NUL" "CHR ''.'' \<in> set tok"
  shows "split_symbol s str (dots tok) (length tok) = Some (attr_chain (split_dots tok))"
proof -
  let ?a = "takeWhile (\<lambda>c. c \<noteq> CHR ''.'') tok"
  let ?k = "length ?a"
  let ?b = "drop (Suc ?k) tok"
  have r: "tok = ?a @ CHR ''.'' # ?b" by (rule dot_split [OF assms(3)])
  have klt: "?k < length tok" by (rule takeWhile_dot_lt [OF assms(3)])
  have sc: "strchr s str (CHR ''.'') = Some (str + ?k)"
    by (rule strchr_dot [OF assms])
  have seg: "c_substr s str ?k = ?a"
    using c_substr_prefix [OF assms(1,2), of ?k] klt by (simp add: take_takeWhile_len)
  have dr: "drop (str + ?k + 1) s = ?b @ post"
  proof -
    have "drop (str + ?k + 1) s = drop (Suc ?k) (drop str s)" by (simp add: add.commute)
    also have "\<dots> = drop (Suc ?k) tok @ post" using assms(1) klt by simp
    finally show ?thesis .
  qed
  have nb: "dots tok = 0 + 1 + dots ?b" using dots_drop [OF assms(3)] by simp
  have nul: "\<forall>c\<in>set ?b. c \<noteq> NUL" using assms(2) by (auto dest: in_set_dropD)
  have rem: "int (length tok) - (int (str + ?k - str) + 1) = int (length ?b)"
    using klt by simp
  have sd: "split_dots tok = ?a # split_dots ?b"
    using assms(3) by (subst split_dots.simps) simp
  have "split_symbol s str (dots tok) (length tok)
          = split_loop s (dots tok) 0 (str + ?k + 1) (str + ?k)
              (int (length tok) - (int (str + ?k - str) + 1)) (LSym ?a)"
    using sc seg by (simp add: split_symbol_def)
  also have "\<dots> = Some (foldl getattr_form (LSym ?a) (split_dots ?b))"
    by (rule split_loop_eq [OF refl nb dr nul rem])
  finally show ?thesis using sd by (simp add: attr_chain_def)
qed


lemma rd_token:
  assumes "drop j s = tok @ post" "m < length tok"
  shows "rd s (j + m) = tok ! m"
proof -
  have "length (drop j s) = length tok + length post" using assms(1) by simp
  then have lt: "j + m < length s" using assms(2) by simp
  then have "s ! (j + m) = drop j s ! m" by simp
  with lt assms show ?thesis by (simp add: rd_def nth_append)
qed

lemma token_split:
  "drop j s = takeWhile symbol_char (drop j s) @ dropWhile symbol_char (drop j s)"
  by simp

lemma token_not_NUL: "\<forall>c\<in>set (takeWhile symbol_char xs). c \<noteq> NUL"
  by (auto dest: set_takeWhileD simp: symbol_char_def)

lemma rd_token_hd:
  assumes "tok = takeWhile symbol_char (drop j s)" "tok \<noteq> []"
  shows "rd s j = hd tok"
  using rd_token [of j s tok "dropWhile symbol_char (drop j s)" 0] assms
  by (simp add: hd_conv_nth)

lemma rd_token_last:
  assumes "tok = takeWhile symbol_char (drop j s)" "tok \<noteq> []"
  shows "rd s (j + length tok - 1) = last tok"
proof -
  have "rd s (j + (length tok - 1)) = tok ! (length tok - 1)"
    using assms by (intro rd_token [where post = "dropWhile symbol_char (drop j s)"]) simp_all
  moreover have "j + length tok - 1 = j + (length tok - 1)" using assms(2) by (cases tok) simp_all
  ultimately show ?thesis using assms(2) by (simp add: last_conv_nth)
qed

lemma parse_symbol_dotted:
  assumes tok: "tok = takeWhile symbol_char (drop j input)"
      and dot: "CHR ''.'' \<in> set tok"
  shows "lisp_parse_symbol rt input j =
           (if hd tok = CHR ''.'' \<or> last tok = CHR ''.''
            then Some (rt\<lparr>error := Some ''unexpected '.' at beginning or end of symbol''\<rparr>,
                       return_result_err None j LE_SYNTAX)
            else Some (rt, return_result (Some (attr_chain (split_dots tok))) (j + length tok)))"
proof -
  from dot have ne: "tok \<noteq> []" by auto
  have scan: "symbol_scan input j 0 0 = (length tok, dots tok)"
    using symbol_scan_eq [of input j 0 0] tok by simp
  have h: "rd input j = hd tok" by (rule rd_token_hd [OF tok ne])
  have l: "rd input (j + length tok - 1) = last tok" by (rule rd_token_last [OF tok ne])
  have "hd tok \<in> set tok" using ne by simp
  then have nn: "rd input j \<noteq> NUL" using h token_not_NUL [of "drop j input"] tok by auto
  have dc: "dots tok \<noteq> 0" using dot by (simp add: dots_0_iff)
  have sp: "split_symbol input j (dots tok) (length tok) = Some (attr_chain (split_dots tok))"
    using token_split [of j input] token_not_NUL [of "drop j input"] dot
    unfolding tok [symmetric] by (rule split_symbol_eq)
  show ?thesis
    using scan h l nn dc sp by (simp add: lisp_parse_symbol_def)
qed

lemma parse_symbol_plain:
  assumes tok: "tok = takeWhile symbol_char (drop j input)"
      and ne: "tok \<noteq> []" and nodot: "CHR ''.'' \<notin> set tok"
  shows "lisp_parse_symbol rt input j =
           Some (rt, return_result (Some (LSym tok)) (j + length tok))"
proof -
  have scan: "symbol_scan input j 0 0 = (length tok, dots tok)"
    using symbol_scan_eq [of input j 0 0] tok by simp
  have h: "rd input j = hd tok" by (rule rd_token_hd [OF tok ne])
  have "hd tok \<in> set tok" using ne by simp
  then have nn: "rd input j \<noteq> NUL" using h token_not_NUL [of "drop j input"] tok by auto
  have dc: "dots tok = 0" using nodot by (simp add: dots_0_iff)
  have "c_substr input j (length tok) = take (length tok) tok"
    using token_split [of j input] token_not_NUL [of "drop j input"]
    unfolding tok [symmetric] by (rule c_substr_prefix) simp
  then have cs: "c_substr input j (length tok) = tok" by simp
  show ?thesis
    using scan nn dc cs by (simp add: lisp_parse_symbol_def)
qed

lemma symbol_char_hd:
  assumes "tok = takeWhile symbol_char xs" "tok \<noteq> []"
  shows "symbol_char (hd tok)"
proof -
  have "hd tok \<in> set tok" using assms(2) by simp
  then show ?thesis using assms(1) by (auto dest: set_takeWhileD)
qed

text \<open>
  Claim C9. A symbol token is the run of symbol characters at the next token, when it
  starts with none of the characters that select another reader. If it contains a dot,
  none of them first or last, \<open>lisp_parse_value\<close> returns the nested attribute
  access over its segments, with quoted attribute names, and the bytes up to the end of
  the token; with a dot first or last it fails with the error kind \<open>syntax\<close>. The
  witness is the token \<open>a.b.c\<close> of the specification, and a token ending in a dot.
\<close>

theorem dotted_symbol_getattr:
  assumes j: "j = skip_space_and_comments input i"
      and tok: "tok = takeWhile symbol_char (drop j input)"
      and dot: "CHR ''.'' \<in> set tok"
      and first: "hd tok \<notin> {CHR 0x22, CHR ''('', CHR 0x60, CHR '',''}" "\<not> isdigit (hd tok)"
  shows "lisp_parse_value (Suc k) rt input i =
           (if hd tok = CHR ''.'' \<or> last tok = CHR ''.''
            then Some (set_error_lineno
                         (rt\<lparr>error := Some ''unexpected '.' at beginning or end of symbol'',
                             err_num := LE_SYNTAX\<rparr>) input j, None, - 1)
            else Some (rt, Some (attr_chain (split_dots tok)), int (j + length tok) - int i))"
proof -
  from dot have ne: "tok \<noteq> []" by auto
  have h: "rd input j = hd tok" by (rule rd_token_hd [OF tok ne])
  have sc: "symbol_char (hd tok)" by (rule symbol_char_hd [OF tok ne])
  have "lisp_parse_value_internal (Suc k) rt input i = lisp_parse_symbol rt input j"
    using j [symmetric] h sc first by (simp add: Let_def symbol_char_def)
  then show ?thesis
    using parse_symbol_dotted [OF tok dot, of rt]
    by (simp add: lisp_parse_value_def return_result_def return_result_err_def)
qed

theorem dotted_symbol_getattr_witness:
  "lisp_parse_value (Suc 0) rt_clear '' a.b.c)'' 0 =
     Some (rt_clear,
           Some (LCons (LSym ''getattr'')
                  (LCons (LCons (LSym ''getattr'')
                            (LCons (LSym ''a'')
                               (LCons (LCons (LSym ''quote'') (LCons (LSym ''b'') LNil)) LNil)))
                     (LCons (LCons (LSym ''quote'') (LCons (LSym ''c'') LNil)) LNil))), 6)
   \<and> lisp_parse_value (Suc 0) rt_clear ''a.b. '' 0 =
     Some (\<lparr>error = Some ''unexpected '.' at beginning or end of symbol'',
             err_num = LE_SYNTAX, error_line = 1\<rparr>, None, - 1)"
proof -
  have j: "(1::nat) = skip_space_and_comments '' a.b.c)'' 0" by code_simp
  have tok: "''a.b.c'' = takeWhile symbol_char (drop 1 '' a.b.c)'')" by code_simp
  have val: "attr_chain (split_dots ''a.b.c'') =
     LCons (LSym ''getattr'')
                  (LCons (LCons (LSym ''getattr'')
                            (LCons (LSym ''a'')
                               (LCons (LCons (LSym ''quote'') (LCons (LSym ''b'') LNil)) LNil)))
                     (LCons (LCons (LSym ''quote'') (LCons (LSym ''c'') LNil)) LNil))"
    by code_simp
  have d: "\<not> isdigit (hd ''a.b.c'')" by code_simp
  have j': "(0::nat) = skip_space_and_comments ''a.b. '' 0" by code_simp
  have tok': "''a.b.'' = takeWhile symbol_char (drop 0 ''a.b. '')" by code_simp
  have d': "\<not> isdigit (hd ''a.b.'')" by code_simp
  have e: "set_error_lineno
             (rt_clear\<lparr>error := Some ''unexpected '.' at beginning or end of symbol'',
                       err_num := LE_SYNTAX\<rparr>) ''a.b. '' 0
           = \<lparr>error = Some ''unexpected '.' at beginning or end of symbol'',
               err_num = LE_SYNTAX, error_line = 1\<rparr>"
    by (simp add: set_error_lineno_def rt_clear_def)
  show ?thesis
    using dotted_symbol_getattr [OF j tok _ _ d, of 0 rt_clear] val
      dotted_symbol_getattr [OF j' tok' _ _ d', of 0 rt_clear] e
    by simp
qed

lemma isdigit_facts:
  "isdigit c \<Longrightarrow> c \<noteq> NUL \<and> \<not> isspace c \<and> c \<noteq> CHR ''-'' \<and> c \<noteq> CHR ''+''"
  by (auto simp: isdigit_def isspace_def NUL_def)

lemma takeWhile_digits_nonNUL:
  "takeWhile isdigit (takeWhile (\<lambda>c. c \<noteq> NUL) xs) = takeWhile isdigit xs"
  by (induction xs) (auto dest: isdigit_facts)

lemma sscanf_d_digits:
  assumes "xs \<noteq> []" "isdigit (hd xs)" "decimal (takeWhile isdigit xs) \<le> 2147483647"
  shows "sscanf_d (takeWhile (\<lambda>c. c \<noteq> NUL) xs)
           = Stored (word_of_nat (decimal (takeWhile isdigit xs))) (length (takeWhile isdigit xs))"
proof -
  obtain c cs where xs: "xs = c # cs" using assms(1) by (cases xs) auto
  with assms(2) have c: "isdigit c" by simp
  note f = isdigit_facts [OF c]
  have t: "takeWhile (\<lambda>c. c \<noteq> NUL) xs = c # takeWhile (\<lambda>c. c \<noteq> NUL) cs"
    using xs f by simp
  have ds: "takeWhile isdigit (c # takeWhile (\<lambda>c. c \<noteq> NUL) cs) = takeWhile isdigit xs"
    using takeWhile_digits_nonNUL [of xs] t by simp
  have ne: "takeWhile isdigit xs \<noteq> []" using xs c by simp
  show ?thesis
    unfolding sscanf_d_def t using f ds ne assms(3) by (simp add: Let_def)
qed

lemma sscanf_d_unrepresentable:
  "sscanf_d ''2147483648'' = Unrepresentable
   \<and> sscanf_d ''99999999999999999999'' = Unrepresentable
   \<and> sscanf_d ''-2147483648'' = Stored (- 2147483648) 11
   \<and> sscanf_d ''x'' = Mismatch"
  by (simp add: sscanf_d_def isspace_def isdigit_def decimal_def digit_val_def)

text \<open>
  Claim C2 fails as it is stated: the token \<open>-5\<close> is read as the symbol named
  \<open>-5\<close>, not as an integer, since \<open>lisp_parse_value_internal\<close> calls
  \<open>lisp_parse_integer\<close> only on a decimal digit.
\<close>

theorem minus_literal_is_symbol:
  "lisp_parse_value (Suc 0) rt_clear ''-5'' 0 = Some (rt_clear, Some (LSym ''-5''), 2)"
  by code_simp

text \<open>
  Claim C2, amended. The reader takes a token for an integer only when it begins with a
  decimal digit: when the number written by its leading run of digits is at most
  \<open>2147483647\<close>, the largest \<open>int\<close>, that number is the value read and the run is
  what is consumed (beyond that bound \<open>sscanf\<close> has no defined behaviour, and nothing
  is stated). A token that begins with \<open>-\<close> goes to the symbol reader, and with no
  dot in it the result is the symbol named by the whole token, also when only digits
  follow the sign.
\<close>

theorem integer_token_amended:
  assumes j: "j = skip_space_and_comments input i"
  shows "(isdigit (rd input j) \<longrightarrow> decimal (takeWhile isdigit (drop j input)) \<le> 2147483647 \<longrightarrow>
            lisp_parse_value (Suc k) rt input i =
              Some (rt, Some (LInt (word_of_nat (decimal (takeWhile isdigit (drop j input))))),
                    int (j + length (takeWhile isdigit (drop j input))) - int i))
       \<and> (rd input j = CHR ''-'' \<longrightarrow> CHR ''.'' \<notin> set (takeWhile symbol_char (drop j input)) \<longrightarrow>
            lisp_parse_value (Suc k) rt input i =
              Some (rt, Some (LSym (takeWhile symbol_char (drop j input))),
                    int (j + length (takeWhile symbol_char (drop j input))) - int i))"
proof (intro conjI impI)
  assume d: "isdigit (rd input j)"
    and fits: "decimal (takeWhile isdigit (drop j input)) \<le> 2147483647"
  note f = isdigit_facts [OF d]
  from f have lt: "j < length input" by (auto simp: rd_def split: if_splits)
  have hd: "hd (drop j input) = rd input j" using rd_drop [OF lt] by simp
  have ne: "drop j input \<noteq> []" using lt by simp
  have "lisp_parse_integer rt input j =
          Some (rt, return_result (Some (LInt (word_of_nat (decimal (takeWhile isdigit (drop j input))))))
                 (j + length (takeWhile isdigit (drop j input))))"
    using sscanf_d_digits [OF ne _ fits] hd d by (simp add: lisp_parse_integer_def)
  moreover have "lisp_parse_value_internal (Suc k) rt input i = lisp_parse_integer rt input j"
    using j [symmetric] d f by (auto simp: Let_def isdigit_def)
  ultimately show "lisp_parse_value (Suc k) rt input i =
              Some (rt, Some (LInt (word_of_nat (decimal (takeWhile isdigit (drop j input))))),
                    int (j + length (takeWhile isdigit (drop j input))) - int i)"
    by (simp add: lisp_parse_value_def return_result_def return_result_err_def)
next
  let ?tok = "takeWhile symbol_char (drop j input)"
  assume m: "rd input j = CHR ''-''" and nodot: "CHR ''.'' \<notin> set ?tok"
  from m have lt: "j < length input" by (auto simp: rd_def NUL_def split: if_splits)
  have sc: "symbol_char (CHR ''-'')"
    by (simp add: symbol_char_def NUL_def isspace_def COMMENT_def)
  have ne: "?tok \<noteq> []" using rd_drop [OF lt] m sc by simp
  have "lisp_parse_value_internal (Suc k) rt input i = lisp_parse_symbol rt input j"
    using j [symmetric] m by (simp add: Let_def NUL_def isdigit_def)
  then show "lisp_parse_value (Suc k) rt input i =
              Some (rt, Some (LSym ?tok), int (j + length ?tok) - int i)"
    using parse_symbol_plain [OF refl ne nodot, of rt]
    by (simp add: lisp_parse_value_def return_result_def return_result_err_def)
qed

theorem integer_token_amended_witness:
  "lisp_parse_value (Suc 0) rt_clear ''42 '' 0 = Some (rt_clear, Some (LInt 42), 2)
   \<and> lisp_parse_value (Suc 0) rt_clear ''2147483647'' 0
       = Some (rt_clear, Some (LInt 2147483647), 10)
   \<and> lisp_parse_value (Suc 0) rt_clear ''(- 5)'' 1 = Some (rt_clear, Some (LSym ''-''), 1)
   \<and> lisp_parse_value (Suc 0) rt_clear ''-17)'' 0 = Some (rt_clear, Some (LSym ''-17''), 3)"
proof -
  have a: "(0::nat) = skip_space_and_comments ''42 '' 0"
    and a1: "isdigit (rd ''42 '' 0)"
    and a2: "takeWhile isdigit (drop 0 ''42 '') = ''42''"
    by code_simp+
  have a3: "decimal ''42'' = 42" by (simp add: decimal_def digit_val_def)
  have m: "(0::nat) = skip_space_and_comments ''2147483647'' 0"
    and m1: "isdigit (rd ''2147483647'' 0)"
    and m2: "takeWhile isdigit (drop 0 ''2147483647'') = ''2147483647''"
    by code_simp+
  have m3: "decimal ''2147483647'' = 2147483647" by (simp add: decimal_def digit_val_def)
  have b: "(1::nat) = skip_space_and_comments ''(- 5)'' 1"
    and b1: "rd ''(- 5)'' 1 = CHR ''-''"
    and b2: "takeWhile symbol_char (drop 1 ''(- 5)'') = ''-''"
    by code_simp+
  have c: "(0::nat) = skip_space_and_comments ''-17)'' 0"
    and c1: "rd ''-17)'' 0 = CHR ''-''"
    and c2: "takeWhile symbol_char (drop 0 ''-17)'') = ''-17''"
    by code_simp+
  show ?thesis
    using integer_token_amended [OF a, of 0 rt_clear] a1 a2 a3
      integer_token_amended [OF m, of 0 rt_clear] m1 m2 m3
      integer_token_amended [OF b, of 0 rt_clear] b1 b2
      integer_token_amended [OF c, of 0 rt_clear] c1 c2
    by simp
qed

text \<open>
  Claim C3. On the unterminated string literal \<open>"abc\<close> the reader fails, and the error
  kind it records is \<open>LE_SYNTAX\<close> (with the message of an unexpected end of input),
  where the lists and the symbols record \<open>LE_EOF\<close>.
\<close>

theorem unterminated_string_is_syntax:
  "lisp_parse_value (Suc 0) rt_clear (CHR 0x22 # ''abc'') 0 =
     Some (\<lparr>error = Some ''unexpected eof while parsing string'',
             err_num = LE_SYNTAX, error_line = 1\<rparr>, None, - 1)"
  by code_simp

text \<open>
  Claim C10. When the first byte after white space and comments is a closing
  parenthesis, \<open>lisp_parse_value\<close> succeeds: the runtime is unchanged (no error is
  recorded), the output is nil, and the byte count reaches up to and including that
  parenthesis.
\<close>

theorem parse_value_unmatched_close:
  assumes "rd input (skip_space_and_comments input i) = CHR '')''"
  shows "lisp_parse_value (Suc k) rt input i =
           Some (rt, Some LNil, int (skip_space_and_comments input i + 1) - int i)"
  using assms
  by (simp add: lisp_parse_value_def Let_def NUL_def return_result_def return_result_err_def)

theorem parse_value_unmatched_close_witness:
  "rd (''  ; c'' @ [CHR 0x0A] @ '' ) x'') (skip_space_and_comments (''  ; c'' @ [CHR 0x0A] @ '' ) x'') 0)
     = CHR '')'' \<and>
   lisp_parse_value (Suc 0) rt_clear (''  ; c'' @ [CHR 0x0A] @ '' ) x'') 0
     = Some (rt_clear, Some LNil, 8)"
proof -
  have h: "rd (''  ; c'' @ [CHR 0x0A] @ '' ) x'')
             (skip_space_and_comments (''  ; c'' @ [CHR 0x0A] @ '' ) x'') 0) = CHR '')''"
    by code_simp
  have v: "int (skip_space_and_comments (''  ; c'' @ [CHR 0x0A] @ '' ) x'') 0 + 1) - int 0 = 8"
    by code_simp
  show ?thesis
    using h parse_value_unmatched_close [OF h, of 0 rt_clear] v by simp
qed
section \<open>Properties of the primitives\<close>

lemma list_cells_proper [simp]: "list_cells (proper_list xs) = xs"
  by (induction xs) (simp_all add: proper_list_def)

lemma lisp_list_length_proper [simp]: "lisp_list_length (proper_list xs) = length xs"
  by (simp add: lisp_list_length_def)

lemma arg_matches_any [simp]: "arg_matches (CHR ''*'') v"
  by (simp add: arg_matches_def)

lemma arg_matches_list_proper [simp]: "arg_matches (CHR ''l'') (proper_list xs)"
  by (cases xs) (simp_all add: arg_matches_def proper_list_def)

lemma proper_list_Cons: "proper_list (x # xs) = LCons x (proper_list xs)"
  by (simp add: proper_list_def)

lemma proper_list_Nil: "proper_list [] = LNil"
  by (simp add: proper_list_def)

text \<open>
  Claim C7. Applied to the three unevaluated arguments \<open>c\<close>, \<open>t\<close>, \<open>e\<close>,
  \<open>lisp_builtin_if\<close> evaluates \<open>c\<close> first (a failure there is the result); when the
  value is an integer other than zero the result is the evaluation of \<open>t\<close>, and for
  every other value, integer zero, nil, a string, a list or anything else, it is the
  evaluation of \<open>e\<close>.
\<close>

theorem if_semantics:
  "lisp_builtin_if lisp_eval rt scope (proper_list [c, t, e]) =
     (case lisp_eval rt scope c of
        (rt1, None) \<Rightarrow> (rt1, None)
      | (rt1, Some v) \<Rightarrow>
          if (\<exists>x. v = LInt x \<and> x \<noteq> 0) then lisp_eval rt1 scope t
          else lisp_eval rt1 scope e)"
proof -
  have args: "lisp_get_args rt (proper_list [c, t, e]) ''***'' = (rt, Some [c, t, e])"
    by (simp add: proper_list_def)
  show ?thesis
  proof (cases "lisp_eval rt scope c")
    case (Pair rt1 r)
    show ?thesis
    proof (cases r)
      case None
      with Pair args show ?thesis by (simp add: lisp_builtin_if_def)
    next
      case (Some v)
      with Pair args show ?thesis
        by (cases v) (simp_all add: lisp_builtin_if_def)
    qed
  qed
qed

theorem if_semantics_witness:
  "lisp_builtin_if eval_self rt_clear 0 (proper_list [LInt 7, LInt 1, LInt 2])
     = (rt_clear, Some (LInt 1))
   \<and> lisp_builtin_if eval_self rt_clear 0 (proper_list [LInt 0, LInt 1, LInt 2])
     = (rt_clear, Some (LInt 2))
   \<and> lisp_builtin_if eval_self rt_clear 0 (proper_list [LNil, LInt 1, LInt 2])
     = (rt_clear, Some (LInt 2))
   \<and> lisp_builtin_if eval_self rt_clear 0 (proper_list [LStr ''yes'', LInt 1, LInt 2])
     = (rt_clear, Some (LInt 2))"
  using if_semantics [of eval_self rt_clear 0 "LInt 7" "LInt 1" "LInt 2"]
    if_semantics [of eval_self rt_clear 0 "LInt 0" "LInt 1" "LInt 2"]
    if_semantics [of eval_self rt_clear 0 LNil "LInt 1" "LInt 2"]
    if_semantics [of eval_self rt_clear 0 "LStr ''yes''" "LInt 1" "LInt 2"]
  by (simp add: eval_self_def)

lemma reduce_loop_fold:
  "reduce_loop lisp_call rt scope f a (proper_list xs)
     = fold_call (\<lambda>rt a x. lisp_call rt scope f (lisp_new_pair_list a x)) rt a xs"
proof (induction xs arbitrary: rt a)
  case Nil
  show ?case by (simp add: proper_list_Nil)
next
  case (Cons x xs)
  show ?case
  proof (cases "lisp_call rt scope f (lisp_new_pair_list a x)")
    case (Pair rt1 r)
    with Cons show ?thesis by (cases r) (simp_all add: proper_list_Cons)
  qed
qed

lemma fold_call_computes:
  assumes "\<forall>a b. step rt a b = (rt, Some (g a b))"
  shows "fold_call step rt a xs = (rt, Some (foldl g a xs))"
  using assms by (induction xs arbitrary: a) simp_all

lemma arg_matches_list_Cons [simp]: "arg_matches (CHR ''l'') (LCons x y)"
  by (simp add: arg_matches_def)

lemma lisp_list_length_Cons [simp]: "lisp_list_length (LCons x l) = Suc (lisp_list_length l)"
  by (simp add: lisp_list_length_def)

lemma lisp_list_length_Nil [simp]: "lisp_list_length LNil = 0"
  by (simp add: lisp_list_length_def)

lemma reduce_two_args:
  "lisp_builtin_reduce lisp_call rt scope (LCons f (LCons l LNil)) =
     (if \<not> arg_matches (CHR ''l'') l
      then (fst (lisp_error rt LE_TYPE ''argument of the wrong type''), None)
      else if lisp_list_length l < 2
      then lisp_error rt LE_2FEW ''reduce: list must have at least 2 entries''
      else (case l of
              LCons initializer list \<Rightarrow> reduce_loop lisp_call rt scope f initializer list
            | _ \<Rightarrow> (rt, None)))"
  by (cases l) (simp_all add: lisp_builtin_reduce_def)

lemma reduce_three_args:
  "lisp_builtin_reduce lisp_call rt scope (LCons f (LCons init (LCons l LNil))) =
     (if \<not> arg_matches (CHR ''l'') l
      then (fst (lisp_error rt LE_TYPE ''argument of the wrong type''), None)
      else if lisp_list_length l < 1
      then lisp_error rt LE_2FEW ''reduce: list must have at least 1 entry''
      else reduce_loop lisp_call rt scope f init l)"
  by (simp add: lisp_builtin_reduce_def)

lemma proper_list_2: "proper_list [a, b] = LCons a (LCons b LNil)"
  by (simp add: proper_list_def)

lemma proper_list_3: "proper_list [a, b, c] = LCons a (LCons b (LCons c LNil))"
  by (simp add: proper_list_def)

text \<open>
  Claim C8. \<open>reduce\<close> called with an argument list of any length but 2 and 3 raises an
  arity error. In the form \<open>(reduce f xs)\<close> a list of fewer than two elements raises
  \<open>too-few\<close>, and otherwise the result is the left fold of the calls of \<open>f\<close> over the
  rest of \<open>xs\<close> from its first element. In the form \<open>(reduce f init xs)\<close> an empty
  list raises \<open>too-few\<close>, and otherwise the fold starts from \<open>init\<close>. When calling
  \<open>f\<close> computes \<open>g\<close>, the fold is \<open>foldl g\<close>: \<open>g (\<dots> (g (g x\<^sub>1 x\<^sub>2) x\<^sub>3) \<dots>) x\<^sub>n\<close>.
\<close>

theorem reduce_semantics:
  "(lisp_list_length args \<noteq> 2 \<and> lisp_list_length args \<noteq> 3 \<longrightarrow>
      lisp_builtin_reduce lisp_call rt scope args
        = lisp_error rt LE_2MANY ''reduce: 2 or 3 arguments required'')
   \<and> (length xs < 2 \<longrightarrow>
      lisp_builtin_reduce lisp_call rt scope (proper_list [f, proper_list xs])
        = lisp_error rt LE_2FEW ''reduce: list must have at least 2 entries'')
   \<and> (length xs < 1 \<longrightarrow>
      lisp_builtin_reduce lisp_call rt scope (proper_list [f, init, proper_list xs])
        = lisp_error rt LE_2FEW ''reduce: list must have at least 1 entry'')
   \<and> (2 \<le> length xs \<longrightarrow>
      lisp_builtin_reduce lisp_call rt scope (proper_list [f, proper_list xs])
        = fold_call (\<lambda>rt a x. lisp_call rt scope f (lisp_new_pair_list a x)) rt (hd xs) (tl xs))
   \<and> (1 \<le> length xs \<longrightarrow>
      lisp_builtin_reduce lisp_call rt scope (proper_list [f, init, proper_list xs])
        = fold_call (\<lambda>rt a x. lisp_call rt scope f (lisp_new_pair_list a x)) rt init xs)
   \<and> (2 \<le> length xs \<and> computes lisp_call rt scope f g \<longrightarrow>
      lisp_builtin_reduce lisp_call rt scope (proper_list [f, proper_list xs])
        = (rt, Some (foldl g (hd xs) (tl xs))))
   \<and> (1 \<le> length xs \<and> computes lisp_call rt scope f g \<longrightarrow>
      lisp_builtin_reduce lisp_call rt scope (proper_list [f, init, proper_list xs])
        = (rt, Some (foldl g init xs)))"
proof -
  let ?step = "\<lambda>rt a x. lisp_call rt scope f (lisp_new_pair_list a x)"
  have two: "lisp_builtin_reduce lisp_call rt scope (proper_list [f, proper_list xs])
               = fold_call ?step rt (hd xs) (tl xs)" if "2 \<le> length xs"
  proof -
    from that obtain x ys where xs: "xs = x # ys" by (cases xs) auto
    have "lisp_builtin_reduce lisp_call rt scope (proper_list [f, proper_list xs])
            = reduce_loop lisp_call rt scope f x (proper_list ys)"
      using that unfolding proper_list_2 reduce_two_args
      by (auto simp: xs proper_list_Cons)
    then show ?thesis by (simp add: xs reduce_loop_fold)
  qed
  have three: "lisp_builtin_reduce lisp_call rt scope (proper_list [f, init, proper_list xs])
               = fold_call ?step rt init xs" if "1 \<le> length xs"
    using that unfolding proper_list_3 reduce_three_args
    by (auto simp: reduce_loop_fold)
  have pure: "fold_call ?step rt a ys = (rt, Some (foldl g a ys))"
    if "computes lisp_call rt scope f g" for a ys
    using that by (intro fold_call_computes) (simp add: computes_def)
  have few2: "lisp_builtin_reduce lisp_call rt scope (proper_list [f, proper_list xs])
        = lisp_error rt LE_2FEW ''reduce: list must have at least 2 entries''"
    if "length xs < 2"
    using that unfolding proper_list_2 reduce_two_args by simp
  have few3: "lisp_builtin_reduce lisp_call rt scope (proper_list [f, init, proper_list xs])
        = lisp_error rt LE_2FEW ''reduce: list must have at least 1 entry''"
    if "length xs < 1"
    using that unfolding proper_list_3 reduce_three_args by simp
  have many: "lisp_builtin_reduce lisp_call rt scope args
        = lisp_error rt LE_2MANY ''reduce: 2 or 3 arguments required''"
    if "lisp_list_length args \<noteq> 2" "lisp_list_length args \<noteq> 3"
    using that by (simp add: lisp_builtin_reduce_def)
  show ?thesis
    using two three pure few2 few3 many by simp
qed

theorem reduce_semantics_witness:
  "lisp_builtin_reduce call_plus rt_clear 0
       (proper_list [LSym ''+'', proper_list [LInt 1, LInt 2, LInt 3, LInt 4]])
     = (rt_clear, Some (LInt 10))
   \<and> lisp_builtin_reduce call_plus rt_clear 0
       (proper_list [LSym ''+'', LInt 5, proper_list [LInt 1]])
     = (rt_clear, Some (LInt 6))
   \<and> lisp_builtin_reduce call_plus rt_clear 0
       (proper_list [LSym ''+'', proper_list [LInt 1]])
     = (\<lparr>error = Some ''reduce: list must have at least 2 entries'',
          err_num = LE_2FEW, error_line = 0\<rparr>, None)
   \<and> lisp_builtin_reduce call_plus rt_clear 0 (proper_list [LSym ''+''])
     = (\<lparr>error = Some ''reduce: 2 or 3 arguments required'',
          err_num = LE_2MANY, error_line = 0\<rparr>, None)"
  using reduce_semantics [of "proper_list [LSym ''+'']" call_plus rt_clear 0
          "[LInt 1, LInt 2, LInt 3, LInt 4]" "LSym ''+''" "LInt 5" "\<lambda>a b. a"]
    reduce_semantics [of "proper_list [LSym ''+'']" call_plus rt_clear 0
          "[LInt 1]" "LSym ''+''" "LInt 5" "\<lambda>a b. a"]
  by (simp add: call_plus_def lisp_builtin_plus_def lisp_new_pair_list_def lisp_error_def
        rt_clear_def)

text \<open>
  Claim C4. \<open>(map f '())\<close>, a callable and one empty list: \<open>get_quoted_left_items\<close>
  returns \<open>NULL\<close> at once, the \<open>while\<close> loop never runs, and the statement after it
  writes \<open>ret->right\<close> with \<open>ret\<close> still \<open>NULL\<close>. The same happens for every
  argument list whose first list is empty. With the callable alone, \<open>(map f)\<close>, the test
  for too few arguments passes (the \<open>right\<close> of the argument list is nil, of list type)
  and \<open>get_quoted_left_items\<close> writes through its own \<open>NULL\<close> pointer.
\<close>

theorem map_empty_list_faults:
  "lisp_builtin_map lisp_call rt scope (proper_list [f, LNil]) = Fault
   \<and> lisp_builtin_map lisp_call rt scope (LCons f (LCons LNil others)) = Fault
   \<and> lisp_builtin_map lisp_call rt scope (proper_list [f]) = Fault"
  by (simp add: lisp_builtin_map_def proper_list_def is_list_type_def map_loop.simps
        get_quoted_left_items_def)
section \<open>Properties of the collector\<close>

subsection \<open>The store\<close>

lemma mark_of_update:
  "mark_of (h[a := Some ob]) b = (if b = a \<and> a < length h then Some (mark ob) else mark_of h b)"
  by (simp add: mark_of_def lookup_update)

lemma shape_of_update_mark:
  "lookup h a = Some ob \<Longrightarrow> shape_of (h[a := Some (ob\<lparr>mark := m\<rparr>)]) b = shape_of h b"
  by (auto simp: shape_of_def lookup_update)

lemma shape_of_children: "shape_of h' a = shape_of h a \<Longrightarrow> children h' a = children h a"
  by (cases "lookup h a"; cases "lookup h' a") (auto simp: shape_of_def children_def)

lemma shape_of_live: "shape_of h' a = shape_of h a \<Longrightarrow> lookup h' a = None \<longleftrightarrow> lookup h a = None"
  by (cases "lookup h a"; cases "lookup h' a") (simp_all add: shape_of_def)

lemma mark_of_live: "mark_of h a = None \<longleftrightarrow> lookup h a = None"
  by (simp add: mark_of_def)

subsection \<open>The inner loop of the mark phase\<close>

lemma mark_children_effect:
  assumes "mark_children h q pushed cs = Some (h', q', pushed')"
  shows "\<exists>new. q' = q @ new \<and> pushed' = pushed @ map (\<lambda>c. (c, GC_QUEUED)) new
           \<and> distinct new
           \<and> set new = {c \<in> set cs. mark_of h c = Some GC_NOMARK}
           \<and> (\<forall>a. mark_of h' a = (if a \<in> set new then Some GC_QUEUED else mark_of h a))
           \<and> (\<forall>a. shape_of h' a = shape_of h a)
           \<and> length h' = length h"
  using assms
proof (induction cs arbitrary: h q pushed)
  case Nil
  then show ?case by simp
next
  case (Cons c cs)
  from Cons.prems obtain oc where oc: "lookup h c = Some oc"
    by (cases "lookup h c") simp_all
  then have lt: "c < length h" by (auto dest: lookup_Some_nth)
  show ?case
  proof (cases "mark oc = GC_NOMARK")
    case True
    let ?h1 = "h[c := Some (oc\<lparr>mark := GC_QUEUED\<rparr>)]"
    from Cons.prems oc True
    have "mark_children ?h1 (q @ [c]) (pushed @ [(c, GC_QUEUED)]) cs = Some (h', q', pushed')"
      by simp
    from Cons.IH [OF this] obtain new where
      q': "q' = (q @ [c]) @ new"
      and p': "pushed' = (pushed @ [(c, GC_QUEUED)]) @ map (\<lambda>c. (c, GC_QUEUED)) new"
      and d: "distinct new"
      and s: "set new = {x \<in> set cs. mark_of ?h1 x = Some GC_NOMARK}"
      and m: "\<forall>a. mark_of h' a = (if a \<in> set new then Some GC_QUEUED else mark_of ?h1 a)"
      and sh: "\<forall>a. shape_of h' a = shape_of ?h1 a"
      and len: "length h' = length ?h1"
      by blast
    have m1: "mark_of ?h1 x = (if x = c then Some GC_QUEUED else mark_of h x)" for x
      using lt by (simp add: mark_of_update)
    have cn: "c \<notin> set new" using s m1 by simp
    have mc: "mark_of h c = Some GC_NOMARK" using oc True by (simp add: mark_of_def)
    have "q' = q @ (c # new)" using q' by simp
    moreover have "pushed' = pushed @ map (\<lambda>c. (c, GC_QUEUED)) (c # new)" using p' by simp
    moreover have "distinct (c # new)" using d cn by simp
    moreover have "set (c # new) = {x \<in> set (c # cs). mark_of h x = Some GC_NOMARK}"
      using s m1 mc by auto
    moreover have "\<forall>a. mark_of h' a = (if a \<in> set (c # new) then Some GC_QUEUED else mark_of h a)"
      using m m1 by simp
    moreover have "\<forall>a. shape_of h' a = shape_of h a"
      using sh shape_of_update_mark [OF oc] by simp
    moreover have "length h' = length h" using len by simp
    ultimately show ?thesis by blast
  next
    case False
    with Cons.prems oc have "mark_children h q pushed cs = Some (h', q', pushed')" by simp
    from Cons.IH [OF this] obtain new where
      n: "q' = q @ new" "pushed' = pushed @ map (\<lambda>c. (c, GC_QUEUED)) new" "distinct new"
        "set new = {x \<in> set cs. mark_of h x = Some GC_NOMARK}"
        "\<forall>a. mark_of h' a = (if a \<in> set new then Some GC_QUEUED else mark_of h a)"
        "\<forall>a. shape_of h' a = shape_of h a" "length h' = length h"
      by blast
    have "mark_of h c \<noteq> Some GC_NOMARK" using oc False by (simp add: mark_of_def)
    then have "set new = {x \<in> set (c # cs). mark_of h x = Some GC_NOMARK}"
      using n(4) by auto
    with n show ?thesis by blast
  qed
qed

lemma mark_children_defined:
  assumes "\<forall>c \<in> set cs. lookup h c \<noteq> None"
  shows "\<exists>r. mark_children h q pushed cs = Some r"
  using assms
proof (induction cs arbitrary: h q pushed)
  case Nil
  then show ?case by simp
next
  case (Cons c cs)
  then obtain oc where oc: "lookup h c = Some oc" by auto
  let ?h1 = "h[c := Some (oc\<lparr>mark := GC_QUEUED\<rparr>)]"
  have "\<forall>x \<in> set cs. lookup ?h1 x \<noteq> None"
    using Cons.prems by (auto simp: lookup_update)
  from Cons.IH [OF this] Cons.IH [of h] Cons.prems oc show ?case by simp
qed


subsection \<open>The outer loop of the mark phase\<close>

lemma mark_loop_step:
  assumes ov: "lookup h v = Some ov"
      and run: "mark_loop h (v # q) pushed = Some r"
  shows "\<exists>h2 new.
           mark_children (h[v := Some (ov\<lparr>mark := GC_MARKED\<rparr>)]) q pushed (expand (payload ov))
             = Some (h2, q @ new, pushed @ map (\<lambda>c. (c, GC_QUEUED)) new)
           \<and> mark_loop h2 (q @ new) (pushed @ map (\<lambda>c. (c, GC_QUEUED)) new) = Some r
           \<and> distinct new
           \<and> set new = {c \<in> set (children h v). c \<noteq> v \<and> mark_of h c = Some GC_NOMARK}
           \<and> (\<forall>a. mark_of h2 a = (if a \<in> set new then Some GC_QUEUED
                                   else if a = v then Some GC_MARKED else mark_of h a))
           \<and> (\<forall>a. shape_of h2 a = shape_of h a)
           \<and> length h2 = length h"
proof -
  let ?h1 = "h[v := Some (ov\<lparr>mark := GC_MARKED\<rparr>)]"
  from ov have lt: "v < length h" by (auto dest: lookup_Some_nth)
  from run ov obtain h2 q2 p2 where
    mc: "mark_children ?h1 q pushed (expand (payload ov)) = Some (h2, q2, p2)"
    and rest: "mark_loop h2 q2 p2 = Some r"
    by (auto split: option.splits)
  from mark_children_effect [OF mc] obtain new where
    n: "q2 = q @ new" "p2 = pushed @ map (\<lambda>c. (c, GC_QUEUED)) new" "distinct new"
       "set new = {c \<in> set (expand (payload ov)). mark_of ?h1 c = Some GC_NOMARK}"
       "\<forall>a. mark_of h2 a = (if a \<in> set new then Some GC_QUEUED else mark_of ?h1 a)"
       "\<forall>a. shape_of h2 a = shape_of ?h1 a" "length h2 = length ?h1"
    by blast
  have m1: "mark_of ?h1 a = (if a = v then Some GC_MARKED else mark_of h a)" for a
    using lt by (simp add: mark_of_update)
  have ch: "children h v = expand (payload ov)" using ov by (simp add: children_def)
  have s: "set new = {c \<in> set (children h v). c \<noteq> v \<and> mark_of h c = Some GC_NOMARK}"
    using n(4) m1 ch by auto
  have m: "\<forall>a. mark_of h2 a = (if a \<in> set new then Some GC_QUEUED
                                   else if a = v then Some GC_MARKED else mark_of h a)"
    using n(5) m1 by simp
  have sh: "\<forall>a. shape_of h2 a = shape_of h a"
    using n(6) shape_of_update_mark [OF ov] by simp
  have len: "length h2 = length h" using n(7) by simp
  have r: "mark_loop h2 (q @ new) (pushed @ map (\<lambda>c. (c, GC_QUEUED)) new) = Some r"
    using rest n(1,2) by simp
  from mc n(1,2) r n(3) s m sh len show ?thesis by blast
qed

lemma mark_loop_defined:
  assumes "closed h0" "\<forall>a. shape_of h a = shape_of h0 a" "length h = length h0"
    "\<forall>a \<in> set q. lookup h a \<noteq> None"
  shows "\<exists>r. mark_loop h q pushed = Some r"
  using assms(2-)
proof (induction h q pushed rule: mark_loop.induct)
  case (1 h pushed)
  show ?case by simp
next
  case (2 h v q pushed)
  then obtain ov where ov: "lookup h v = Some ov" by auto
  then have lt: "v < length h" by (auto dest: lookup_Some_nth)
  let ?h1 = "h[v := Some (ov\<lparr>mark := GC_MARKED\<rparr>)]"
  have ch: "children h0 v = expand (payload ov)"
    using shape_of_children [of h v h0] "2.prems"(1) ov by (simp add: children_def)
  have live: "lookup h c \<noteq> None" if "c \<in> set (expand (payload ov))" for c
  proof -
    have "lookup h0 c \<noteq> None"
      using \<open>closed h0\<close> that ch lt "2.prems"(2) by (auto simp: closed_def)
    then show ?thesis using shape_of_live [of h c h0] "2.prems"(1) by simp
  qed
  then have "\<forall>c \<in> set (expand (payload ov)). lookup ?h1 c \<noteq> None"
    by (auto simp: lookup_update)
  from mark_children_defined [OF this, of q pushed] obtain h2 q2 p2 where
    mc: "mark_children ?h1 q pushed (expand (payload ov)) = Some (h2, q2, p2)"
    by (metis prod_cases3)
  from mark_children_effect [OF mc] obtain new where
    n: "q2 = q @ new"
       "set new = {c \<in> set (expand (payload ov)). mark_of ?h1 c = Some GC_NOMARK}"
       "\<forall>a. shape_of h2 a = shape_of ?h1 a" "length h2 = length ?h1"
    by blast
  have sh: "\<forall>a. shape_of h2 a = shape_of h0 a"
    using n(3) shape_of_update_mark [OF ov] "2.prems"(1) by simp
  have len: "length h2 = length h0" using n(4) "2.prems"(2) by simp
  have ql: "\<forall>a \<in> set q2. lookup h2 a \<noteq> None"
  proof
    fix a assume "a \<in> set q2"
    then have "lookup h a \<noteq> None" using n(1,2) "2.prems"(3) live by auto
    then show "lookup h2 a \<noteq> None"
      using shape_of_live [of h2 a h0] shape_of_live [of h a h0] sh "2.prems"(1) by simp
  qed
  from "2.IH" [OF ov mc refl refl sh len ql] mc ov
  show ?case by simp
qed


lemma reachable_child:
  "a \<in> reachable h root \<Longrightarrow> c \<in> set (children h a) \<Longrightarrow> c \<in> reachable h root"
  by (auto simp: reachable_def edges_def intro: rtrancl_into_rtrancl)

lemma mark_loop_gc_inv:
  assumes "mark_loop h q pushed = Some (h', pushed')" "gc_inv h0 root h q"
  shows "gc_inv h0 root h' []"
  using assms
proof (induction h q pushed rule: mark_loop.induct)
  case (1 h pushed)
  then show ?case by simp
next
  case (2 h v q pushed)
  from "2.prems"(1) obtain ov where ov: "lookup h v = Some ov"
    by (cases "lookup h v") simp_all
  note inv = "2.prems"(2) [unfolded gc_inv_def]
  from mark_loop_step [OF ov "2.prems"(1)] obtain h2 new where
    mc: "mark_children (h[v := Some (ov\<lparr>mark := GC_MARKED\<rparr>)]) q pushed (expand (payload ov))
           = Some (h2, q @ new, pushed @ map (\<lambda>c. (c, GC_QUEUED)) new)"
    and run: "mark_loop h2 (q @ new) (pushed @ map (\<lambda>c. (c, GC_QUEUED)) new) = Some (h', pushed')"
    and new: "set new = {c \<in> set (children h v). c \<noteq> v \<and> mark_of h c = Some GC_NOMARK}"
    and m: "\<forall>a. mark_of h2 a = (if a \<in> set new then Some GC_QUEUED
                                   else if a = v then Some GC_MARKED else mark_of h a)"
    and sh: "\<forall>a. shape_of h2 a = shape_of h a"
    and len: "length h2 = length h"
    by blast
  have ch: "children h v = children h0 v"
    using inv shape_of_children [of h v h0] by simp
  have vr: "v \<in> reachable h0 root" using inv by simp
  have inv2: "gc_inv h0 root h2 (q @ new)"
    unfolding gc_inv_def
  proof (intro conjI allI impI)
    fix a show "shape_of h2 a = shape_of h0 a" using sh inv by simp
  next
    show "length h2 = length h0" using len inv by simp
  next
    fix a assume "mark_of h2 a = Some GC_QUEUED"
    then show "a \<in> set (q @ new)" using m inv by (auto split: if_splits)
  next
    fix a assume a: "mark_of h2 a = Some GC_MARKED"
    show "\<forall>c \<in> set (children h0 a). mark_of h2 c \<noteq> Some GC_NOMARK"
    proof
      fix c assume c: "c \<in> set (children h0 a)"
      show "mark_of h2 c \<noteq> Some GC_NOMARK"
      proof (cases "a = v")
        case True
        with c ch new m show ?thesis by (auto split: if_splits)
      next
        case False
        with a m have "mark_of h a = Some GC_MARKED" by (auto split: if_splits)
        with inv c have "mark_of h c \<noteq> Some GC_NOMARK" by blast
        with m show ?thesis by (auto split: if_splits)
      qed
    qed
  next
    fix a
    assume "a \<in> set (q @ new) \<or> mark_of h2 a = Some GC_QUEUED \<or> mark_of h2 a = Some GC_MARKED"
    then consider "a \<in> set new" | "a = v" | "a \<in> set q"
      | "mark_of h a = Some GC_QUEUED" | "mark_of h a = Some GC_MARKED"
      using m by (auto split: if_splits)
    then show "a \<in> reachable h0 root"
    proof cases
      case 1
      then have "a \<in> set (children h0 v)" using new ch by simp
      with vr show ?thesis by (rule reachable_child)
    qed (use inv vr in auto)
  next
    fix a assume "mark_of h2 a = Some GC_NOMARK"
    then have "mark_of h a = Some GC_NOMARK" using m by (auto split: if_splits)
    then show "mark_of h0 a = Some GC_NOMARK" using inv by simp
  next
    show "root \<in> set (q @ new) \<or> mark_of h2 root = Some GC_MARKED"
    proof (cases "root = v")
      case True
      then show ?thesis using m new by auto
    next
      case False
      then show ?thesis using inv m new by (auto split: if_splits)
    qed
  qed
  from "2.IH" [OF ov mc refl refl run inv2] show ?case .
qed

subsection \<open>The sweep loop\<close>

lemma obj_list_frame:
  "obj_list h p xs \<Longrightarrow> \<forall>a \<in> set xs. shape_of h' a = shape_of h a \<Longrightarrow> obj_list h' p xs"
proof (induction xs arbitrary: p)
  case Nil
  then show ?case by simp
next
  case (Cons x xs)
  from Cons.prems(1) obtain ob where ob: "lookup h x = Some ob" and p: "p = Some x"
    and rest: "obj_list h (nxt ob) xs"
    by (cases "lookup h x") auto
  from Cons.prems(2) ob obtain ob' where ob': "lookup h' x = Some ob'" and n: "nxt ob' = nxt ob"
    by (cases "lookup h' x") (auto simp: shape_of_def)
  from Cons.IH [OF rest] Cons.prems(2) have "obj_list h' (nxt ob) xs" by simp
  with ob' n p show ?case by simp
qed

lemma shape_of_eq_lookup: "lookup h' a = lookup h a \<Longrightarrow> shape_of h' a = shape_of h a"
  by (simp add: shape_of_def)

lemma sweep_loop_correct:
  assumes "obj_list h (Some cur) (cur # rest)" "distinct (cur # rest)"
  shows "\<exists>h'. sweep_loop h cur
               = Some (h', last (cur # filter (\<lambda>a. mark_of h a = Some GC_MARKED) rest))
      \<and> obj_list h' (Some cur) (cur # filter (\<lambda>a. mark_of h a = Some GC_MARKED) rest)
      \<and> (\<forall>a \<in> set (cur # filter (\<lambda>a. mark_of h a = Some GC_MARKED) rest).
            mark_of h' a = Some GC_NOMARK
            \<and> map_option payload (lookup h' a) = map_option payload (lookup h a))
      \<and> (\<forall>a \<in> set rest. mark_of h a \<noteq> Some GC_MARKED \<longrightarrow> lookup h' a = None)
      \<and> (\<forall>a. a \<notin> set (cur # rest) \<longrightarrow> lookup h' a = lookup h a)
      \<and> length h' = length h"
  using assms
proof (induction rest arbitrary: h cur)
  case Nil
  then obtain oc where oc: "lookup h cur = Some oc" and n: "nxt oc = None"
    by (cases "lookup h cur") auto
  then have lt: "cur < length h" by (auto dest: lookup_Some_nth)
  let ?h' = "h[cur := Some (oc\<lparr>mark := GC_NOMARK\<rparr>)]"
  have "sweep_loop h cur = Some (?h', cur)"
    using oc n by (subst sweep_loop.simps) simp
  moreover have "obj_list ?h' (Some cur) [cur]"
    using lt n by (simp add: lookup_update)
  moreover have "mark_of ?h' cur = Some GC_NOMARK" using lt by (simp add: mark_of_update)
  moreover have "map_option payload (lookup ?h' cur) = map_option payload (lookup h cur)"
    using lt oc by (simp add: lookup_update)
  moreover have "\<forall>a. a \<notin> set [cur] \<longrightarrow> lookup ?h' a = lookup h a"
    by (simp add: lookup_update)
  ultimately show ?case by simp
next
  case (Cons n rest)
  let ?M = "\<lambda>h a. mark_of h a = Some GC_MARKED"
  from Cons.prems(1) obtain oc where oc: "lookup h cur = Some oc" and nx: "nxt oc = Some n"
    and l1: "obj_list h (Some n) (n # rest)"
    by (cases "lookup h cur") auto
  from l1 obtain on where on: "lookup h n = Some on" and l2: "obj_list h (nxt on) rest"
    by (cases "lookup h n") auto
  from oc have clt: "cur < length h" by (auto dest: lookup_Some_nth)
  from on have nlt: "n < length h" by (auto dest: lookup_Some_nth)
  from Cons.prems(2) have ne: "cur \<noteq> n" and cr: "cur \<notin> set rest" and nr: "n \<notin> set rest"
    and dr: "distinct rest"
    by auto
  show ?case
  proof (cases "mark on = GC_MARKED")
    case False
    let ?h2 = "(lisp_free h n)[cur := Some (oc\<lparr>nxt := nxt on\<rparr>)]"
    have lk2: "lookup ?h2 a = (if a = cur then Some (oc\<lparr>nxt := nxt on\<rparr>)
                               else if a = n then None else lookup h a)" for a
      using clt nlt by (simp add: lisp_free_def lookup_update)
    have step: "sweep_loop h cur = sweep_loop ?h2 cur"
      using oc nx on False ne nlt
      by (subst sweep_loop.simps) (simp add: lisp_free_def lookup_update)
    have "obj_list ?h2 (nxt on) rest"
      using l2 cr nr by (intro obj_list_frame [OF l2] ballI shape_of_eq_lookup) (auto simp: lk2)
    then have l': "obj_list ?h2 (Some cur) (cur # rest)" by (simp add: lk2)
    have d': "distinct (cur # rest)" using cr dr by simp
    have mk: "mark_of ?h2 a = mark_of h a" if "a \<in> set rest" for a
      using that cr nr by (auto simp: mark_of_def lk2)
    have fl: "filter (?M ?h2) rest = filter (?M h) rest"
      by (rule filter_cong) (simp_all add: mk)
    have nm: "\<not> ?M h n" using on False by (simp add: mark_of_def)
    from Cons.IH [OF l' d'] obtain h' where
      r: "sweep_loop ?h2 cur = Some (h', last (cur # filter (?M ?h2) rest))"
      and ol: "obj_list h' (Some cur) (cur # filter (?M ?h2) rest)"
      and sv: "\<forall>a \<in> set (cur # filter (?M ?h2) rest).
                 mark_of h' a = Some GC_NOMARK
                 \<and> map_option payload (lookup h' a) = map_option payload (lookup ?h2 a)"
      and fr: "\<forall>a \<in> set rest. mark_of ?h2 a \<noteq> Some GC_MARKED \<longrightarrow> lookup h' a = None"
      and fm: "\<forall>a. a \<notin> set (cur # rest) \<longrightarrow> lookup h' a = lookup ?h2 a"
      and len: "length h' = length ?h2"
      by blast
    have f2: "filter (?M h) (n # rest) = filter (?M h) rest" using nm by simp
    have "sweep_loop h cur = Some (h', last (cur # filter (?M h) (n # rest)))"
      using step r fl f2 by simp
    moreover have "obj_list h' (Some cur) (cur # filter (?M h) (n # rest))"
      using ol fl f2 by simp
    moreover have "\<forall>a \<in> set (cur # filter (?M h) (n # rest)).
                 mark_of h' a = Some GC_NOMARK
                 \<and> map_option payload (lookup h' a) = map_option payload (lookup h a)"
    proof
      fix a assume a: "a \<in> set (cur # filter (?M h) (n # rest))"
      then have a2: "a \<in> set (cur # filter (?M ?h2) rest)" using fl f2 by simp
      have "a \<noteq> n" using a nr ne nm by auto
      then have p: "map_option payload (lookup ?h2 a) = map_option payload (lookup h a)"
        using oc by (simp add: lk2)
      from sv a2 have "mark_of h' a = Some GC_NOMARK
                 \<and> map_option payload (lookup h' a) = map_option payload (lookup ?h2 a)"
        by blast
      with p show "mark_of h' a = Some GC_NOMARK
                 \<and> map_option payload (lookup h' a) = map_option payload (lookup h a)"
        by simp
    qed
    moreover have "\<forall>a \<in> set (n # rest). mark_of h a \<noteq> Some GC_MARKED \<longrightarrow> lookup h' a = None"
    proof (intro ballI impI)
      fix a assume a: "a \<in> set (n # rest)" and m: "mark_of h a \<noteq> Some GC_MARKED"
      show "lookup h' a = None"
      proof (cases "a = n")
        case True
        then have "lookup h' a = lookup ?h2 a" using fm ne nr by simp
        with True ne show ?thesis by (simp add: lk2)
      next
        case False
        with a have "a \<in> set rest" by simp
        with fr mk m show ?thesis by simp
      qed
    qed
    moreover have "\<forall>a. a \<notin> set (cur # n # rest) \<longrightarrow> lookup h' a = lookup h a"
      using fm by (simp add: lk2)
    moreover have "length h' = length h" using len by (simp add: lisp_free_def)
    ultimately show ?thesis by blast
  next
    case True
    let ?h1 = "h[cur := Some (oc\<lparr>mark := GC_NOMARK\<rparr>)]"
    have lk1: "lookup ?h1 a = (if a = cur then Some (oc\<lparr>mark := GC_NOMARK\<rparr>) else lookup h a)"
      for a
      using clt by (simp add: lookup_update)
    have step: "sweep_loop h cur = sweep_loop ?h1 n"
      using oc nx on True by (subst sweep_loop.simps) simp
    have l': "obj_list ?h1 (Some n) (n # rest)"
      using ne cr by (intro obj_list_frame [OF l1] ballI shape_of_eq_lookup) (auto simp: lk1)
    have d': "distinct (n # rest)" using nr dr by simp
    have mk: "mark_of ?h1 a = mark_of h a" if "a \<in> set (n # rest)" for a
      using that cr ne by (auto simp: mark_of_def lk1)
    have fl: "filter (?M ?h1) rest = filter (?M h) rest"
      by (rule filter_cong) (simp_all add: mk)
    have nm: "?M h n" using on True by (simp add: mark_of_def)
    from Cons.IH [OF l' d'] obtain h' where
      r: "sweep_loop ?h1 n = Some (h', last (n # filter (?M ?h1) rest))"
      and ol: "obj_list h' (Some n) (n # filter (?M ?h1) rest)"
      and sv: "\<forall>a \<in> set (n # filter (?M ?h1) rest).
                 mark_of h' a = Some GC_NOMARK
                 \<and> map_option payload (lookup h' a) = map_option payload (lookup ?h1 a)"
      and fr: "\<forall>a \<in> set rest. mark_of ?h1 a \<noteq> Some GC_MARKED \<longrightarrow> lookup h' a = None"
      and fm: "\<forall>a. a \<notin> set (n # rest) \<longrightarrow> lookup h' a = lookup ?h1 a"
      and len: "length h' = length ?h1"
      by blast
    have f2: "filter (?M h) (n # rest) = n # filter (?M h) rest" using nm by simp
    have hc: "lookup h' cur = Some (oc\<lparr>mark := GC_NOMARK\<rparr>)"
      using fm ne cr by (simp add: lk1)
    have "sweep_loop h cur = Some (h', last (cur # filter (?M h) (n # rest)))"
      using step r fl f2 by simp
    moreover have "obj_list h' (Some cur) (cur # filter (?M h) (n # rest))"
      using ol fl f2 hc nx by simp
    moreover have "\<forall>a \<in> set (cur # filter (?M h) (n # rest)).
                 mark_of h' a = Some GC_NOMARK
                 \<and> map_option payload (lookup h' a) = map_option payload (lookup h a)"
    proof
      fix a assume a: "a \<in> set (cur # filter (?M h) (n # rest))"
      show "mark_of h' a = Some GC_NOMARK
                 \<and> map_option payload (lookup h' a) = map_option payload (lookup h a)"
      proof (cases "a = cur")
        case True
        with hc oc show ?thesis by (simp add: mark_of_def)
      next
        case False
        with a have a2: "a \<in> set (n # filter (?M ?h1) rest)" using fl f2 by simp
        have p: "lookup ?h1 a = lookup h a" using False by (simp add: lk1)
        from sv a2 have "mark_of h' a = Some GC_NOMARK
                 \<and> map_option payload (lookup h' a) = map_option payload (lookup ?h1 a)"
          by blast
        with p show ?thesis by simp
      qed
    qed
    moreover have "\<forall>a \<in> set (n # rest). mark_of h a \<noteq> Some GC_MARKED \<longrightarrow> lookup h' a = None"
      using fr mk nm by auto
    moreover have "\<forall>a. a \<notin> set (cur # n # rest) \<longrightarrow> lookup h' a = lookup h a"
      using fm by (simp add: lk1)
    moreover have "length h' = length h" using len by simp
    ultimately show ?thesis by blast
  qed
qed

subsection \<open>A collection cycle\<close>

lemma lookup_live_lt: "lookup h a \<noteq> None \<Longrightarrow> a < length h"
  by (auto simp: lookup_def split: if_splits)

lemma mark_phase_result:
  assumes cl: "closed h0" and inv: "gc_inv h0 root h' []"
  shows "mark_of h' a = Some GC_MARKED \<longleftrightarrow> a \<in> reachable h0 root"
proof
  assume "mark_of h' a = Some GC_MARKED"
  then show "a \<in> reachable h0 root" using inv by (simp add: gc_inv_def)
next
  note i = inv [unfolded gc_inv_def]
  have closure: "mark_of h' c = Some GC_MARKED"
    if b: "mark_of h' b = Some GC_MARKED" and c: "(b, c) \<in> edges h0" for b c
  proof -
    from c have cc: "c \<in> set (children h0 b)" by (simp add: edges_def)
    from b have "lookup h' b \<noteq> None" by (auto simp: mark_of_def)
    then have "lookup h0 b \<noteq> None" using i shape_of_live [of h' b h0] by simp
    then have "b < length h0" by (rule lookup_live_lt)
    with cl cc have "lookup h0 c \<noteq> None" by (auto simp: closed_def)
    then have "lookup h' c \<noteq> None" using i shape_of_live [of h' c h0] by simp
    then obtain m where m: "mark_of h' c = Some m" by (auto simp: mark_of_def)
    moreover have "m \<noteq> GC_NOMARK" using i b cc m by auto
    moreover have "m \<noteq> GC_QUEUED" using i m by auto
    ultimately show ?thesis by (cases m) simp_all
  qed
  assume "a \<in> reachable h0 root"
  then have "(root, a) \<in> (edges h0)\<^sup>*" by (simp add: reachable_def)
  then show "mark_of h' a = Some GC_MARKED"
  proof (induction rule: rtrancl_induct)
    case base
    show ?case using i by simp
  next
    case (step b c)
    then show ?case using closure by blast
  qed
qed

lemma mark_between_collections:
  assumes bc: "between_collections rt xs" and root: "root \<in> set xs"
  shows "\<exists>h1. lisp_mark rt root = Some (rt\<lparr>heap := h1, rb := []\<rparr>)
           \<and> (\<forall>a. shape_of h1 a = shape_of (heap rt) a) \<and> length h1 = length (heap rt)
           \<and> (\<forall>a. mark_of h1 a = Some GC_MARKED \<longleftrightarrow> a \<in> reachable (heap rt) root)"
proof -
  let ?h = "heap rt"
  note b = bc [unfolded between_collections_def]
  have nomark: "mark_of ?h a = Some GC_NOMARK" if "lookup ?h a \<noteq> None" for a
    using b that lookup_live_lt [OF that] by blast
  from root b obtain ov where ov: "lookup ?h root = Some ov"
    by (auto simp: mark_of_def)
  have "\<exists>r. mark_loop ?h [root] [(root, mark ov)] = Some r"
    using b ov by (intro mark_loop_defined [of ?h]) auto
  then obtain h1 pushed where run: "mark_loop ?h [root] [(root, mark ov)] = Some (h1, pushed)"
    by auto
  have i0: "gc_inv ?h root ?h [root]"
    unfolding gc_inv_def
  proof (intro conjI allI impI)
    fix a assume "mark_of ?h a = Some GC_QUEUED"
    then show "a \<in> set [root]" using nomark [of a] by (auto simp: mark_of_def)
  next
    fix a assume "mark_of ?h a = Some GC_MARKED"
    then show "\<forall>c \<in> set (children ?h a). mark_of ?h c \<noteq> Some GC_NOMARK"
      using nomark [of a] by (auto simp: mark_of_def)
  next
    fix a
    assume "a \<in> set [root] \<or> mark_of ?h a = Some GC_QUEUED \<or> mark_of ?h a = Some GC_MARKED"
    then show "a \<in> reachable ?h root"
      using nomark [of a] by (auto simp: mark_of_def reachable_def)
  qed simp_all
  from mark_loop_gc_inv [OF run i0] have i1: "gc_inv ?h root h1 []" .
  have "lisp_mark rt root = Some (rt\<lparr>heap := h1, rb := []\<rparr>)"
    using ov run b by (simp add: lisp_mark_def lisp_mark_pushed_def push_root_def)
  moreover have "\<forall>a. shape_of h1 a = shape_of ?h a" "length h1 = length ?h"
    using i1 by (simp_all add: gc_inv_def)
  moreover have "\<forall>a. mark_of h1 a = Some GC_MARKED \<longleftrightarrow> a \<in> reachable ?h root"
    using mark_phase_result [OF _ i1] b by blast
  ultimately show ?thesis by blast
qed

text \<open>
  Claim C6. Let the runtime be in the state it has between two collections, \<open>xs\<close>
  its object list, and \<open>root\<close> one of its objects. Then \<open>lisp_mark\<close> and
  \<open>lisp_sweep\<close> both return, and afterwards, with \<open>ys\<close> the new object list:
  every value reachable from the root is on the list; every object on the list has the
  mark \<open>GC_NOMARK\<close> and its payload of before; every object other than nil that the
  mark phase did not mark has been freed and is off the list; nil is still the head of
  the list and has not been freed. Moreover nothing but nil and the reachable values
  is left on the list.
\<close>

theorem mark_sweep_cycle:
  assumes bc: "between_collections rt xs" and root: "root \<in> set xs"
  shows "\<exists>rt1 rt2 ys.
           lisp_mark rt root = Some rt1 \<and> lisp_sweep rt1 = Some rt2
         \<and> obj_list (heap rt2) (Some (head rt2)) ys
         \<and> (\<forall>a \<in> reachable (heap rt) root. a \<in> set ys)
         \<and> (\<forall>a \<in> set ys. mark_of (heap rt2) a = Some GC_NOMARK
                \<and> map_option payload (lookup (heap rt2) a)
                    = map_option payload (lookup (heap rt) a))
         \<and> (\<forall>a \<in> set xs. a \<noteq> nil rt \<longrightarrow> mark_of (heap rt1) a \<noteq> Some GC_MARKED \<longrightarrow>
                lookup (heap rt2) a = None \<and> a \<notin> set ys)
         \<and> nil rt2 = nil rt \<and> head rt2 = nil rt \<and> nil rt \<in> set ys
         \<and> lookup (heap rt2) (nil rt) \<noteq> None
         \<and> (\<forall>a \<in> set ys. a = nil rt \<or> a \<in> reachable (heap rt) root)"
proof -
  let ?h = "heap rt"
  from bc have ol: "obj_list ?h (Some (head rt)) xs" and dx: "distinct xs"
    and listed: "\<forall>a < length ?h. lookup ?h a \<noteq> None \<longrightarrow> a \<in> set xs"
    and hn: "head rt = nil rt"
    unfolding between_collections_def by blast+
  from mark_between_collections [OF bc root] obtain h1 where
    mk: "lisp_mark rt root = Some (rt\<lparr>heap := h1, rb := []\<rparr>)"
    and sh: "\<forall>a. shape_of h1 a = shape_of ?h a"
    and mr: "\<forall>a. mark_of h1 a = Some GC_MARKED \<longleftrightarrow> a \<in> reachable ?h root"
    by blast
  let ?rt1 = "rt\<lparr>heap := h1, rb := []\<rparr>"
  from ol obtain rest where xs: "xs = head rt # rest" by (cases xs) auto
  have ol1: "obj_list h1 (Some (head rt)) (head rt # rest)"
    by (rule obj_list_frame [OF ol [unfolded xs]]) (simp add: sh)
  have d1: "distinct (head rt # rest)" using dx xs by simp
  let ?ys = "head rt # filter (\<lambda>a. mark_of h1 a = Some GC_MARKED) rest"
  from sweep_loop_correct [OF ol1 d1] obtain h2 where
    sw: "sweep_loop h1 (head rt) = Some (h2, last ?ys)"
    and ol2: "obj_list h2 (Some (head rt)) ?ys"
    and sv: "\<forall>a \<in> set ?ys. mark_of h2 a = Some GC_NOMARK
                \<and> map_option payload (lookup h2 a) = map_option payload (lookup h1 a)"
    and fr: "\<forall>a \<in> set rest. mark_of h1 a \<noteq> Some GC_MARKED \<longrightarrow> lookup h2 a = None"
    by blast
  let ?rt2 = "?rt1\<lparr>heap := h2, tail := last ?ys\<rparr>"
  have s2: "lisp_sweep ?rt1 = Some ?rt2" using sw by (simp add: lisp_sweep_def)
  have pl: "map_option payload (lookup h1 a) = map_option payload (lookup ?h a)" for a
    using sh [rule_format, of a]
    by (cases "lookup h1 a"; cases "lookup ?h a") (simp_all add: shape_of_def)
  have reach: "a \<in> set ?ys" if "a \<in> reachable ?h root" for a
  proof -
    from that mr have m: "mark_of h1 a = Some GC_MARKED" by simp
    then have "lookup h1 a \<noteq> None" by (auto simp: mark_of_def)
    then have l: "lookup ?h a \<noteq> None" using sh shape_of_live [of h1 a ?h] by simp
    then have "a \<in> set xs" using listed lookup_live_lt [OF l] by blast
    with m xs show ?thesis by auto
  qed
  have c1: "obj_list (heap ?rt2) (Some (head ?rt2)) ?ys" using ol2 by simp
  have c2: "\<forall>a \<in> reachable ?h root. a \<in> set ?ys" using reach by blast
  have c3: "\<forall>a \<in> set ?ys. mark_of (heap ?rt2) a = Some GC_NOMARK
                \<and> map_option payload (lookup (heap ?rt2) a) = map_option payload (lookup ?h a)"
    using sv pl by simp
  have c4: "\<forall>a \<in> set xs. a \<noteq> nil rt \<longrightarrow> mark_of (heap ?rt1) a \<noteq> Some GC_MARKED \<longrightarrow>
                lookup (heap ?rt2) a = None \<and> a \<notin> set ?ys"
  proof (intro ballI impI)
    fix a assume "a \<in> set xs" "a \<noteq> nil rt" "mark_of (heap ?rt1) a \<noteq> Some GC_MARKED"
    then have "a \<in> set rest" "mark_of h1 a \<noteq> Some GC_MARKED" using xs hn by simp_all
    then show "lookup (heap ?rt2) a = None \<and> a \<notin> set ?ys"
      using fr \<open>a \<noteq> nil rt\<close> hn by simp
  qed
  have c5: "nil ?rt2 = nil rt \<and> head ?rt2 = nil rt \<and> nil rt \<in> set ?ys"
    using hn by simp
  have c6: "lookup (heap ?rt2) (nil rt) \<noteq> None"
    using ol2 hn by (cases "lookup h2 (head rt)") simp_all
  have c7: "\<forall>a \<in> set ?ys. a = nil rt \<or> a \<in> reachable ?h root"
    using mr hn by simp
  from mk s2 c1 c2 c3 c4 c5 c6 c7 show ?thesis by blast
qed

subsection \<open>The pushes of the mark phase\<close>

lemma mark_loop_push_inv:
  assumes "mark_loop h q pushed = Some (h', pushed')" "push_inv h0 h q pushed"
  shows "push_inv h0 h' [] pushed' \<and> hd pushed' = hd pushed"
  using assms
proof (induction h q pushed rule: mark_loop.induct)
  case (1 h pushed)
  then show ?case by simp
next
  case (2 h v q pushed)
  from "2.prems"(1) obtain ov where ov: "lookup h v = Some ov"
    by (cases "lookup h v") simp_all
  note inv = "2.prems"(2) [unfolded push_inv_def]
  let ?P = "fst ` set pushed"
  let ?p2 = "pushed @ map (\<lambda>c. (c, GC_QUEUED)) new"
  from mark_loop_step [OF ov "2.prems"(1)] obtain h2 new where
    mc: "mark_children (h[v := Some (ov\<lparr>mark := GC_MARKED\<rparr>)]) q pushed (expand (payload ov))
           = Some (h2, q @ new, pushed @ map (\<lambda>c. (c, GC_QUEUED)) new)"
    and run: "mark_loop h2 (q @ new) (pushed @ map (\<lambda>c. (c, GC_QUEUED)) new) = Some (h', pushed')"
    and dn: "distinct new"
    and new: "set new = {c \<in> set (children h v). c \<noteq> v \<and> mark_of h c = Some GC_NOMARK}"
    and m: "\<forall>a. mark_of h2 a = (if a \<in> set new then Some GC_QUEUED
                                   else if a = v then Some GC_MARKED else mark_of h a)"
    and sh: "\<forall>a. shape_of h2 a = shape_of h a"
    by blast
  let ?pn = "pushed @ map (\<lambda>c. (c, GC_QUEUED)) new"
  have ch: "children h v = children h0 v"
    using inv shape_of_children [of h v h0] by simp
  have fp: "fst ` set ?pn = ?P \<union> set new" by (auto simp: image_Un image_image)
  have vP: "v \<in> ?P" using inv by auto
  have disj: "c \<notin> ?P" if "c \<in> set new" for c
  proof
    assume "c \<in> ?P"
    moreover from that new have "mark_of h c = Some GC_NOMARK" "c \<noteq> v" by auto
    ultimately show False using inv by auto
  qed
  have inv2: "push_inv h0 h2 (q @ new) ?pn"
    unfolding push_inv_def
  proof (intro conjI)
    show "?pn \<noteq> []" using inv by simp
  next
    have "map fst ?pn = map fst pushed @ new" by (simp add: comp_def)
    then show "distinct (map fst ?pn)" using inv dn disj by auto
  next
    show "set (q @ new) \<subseteq> fst ` set ?pn" using inv fp by auto
  next
    show "\<forall>a. shape_of h2 a = shape_of h0 a" using sh inv by simp
  next
    show "\<forall>c \<in> fst ` set ?pn. mark_of h2 c = Some GC_MARKED \<or> c \<in> set (q @ new)"
    proof
      fix c assume "c \<in> fst ` set ?pn"
      then consider "c \<in> set new" | "c = v" "c \<notin> set new" | "c \<in> ?P" "c \<noteq> v" "c \<notin> set new"
        using fp by auto
      then show "mark_of h2 c = Some GC_MARKED \<or> c \<in> set (q @ new)"
      proof cases
        case 3
        then have "mark_of h c = Some GC_MARKED \<or> c \<in> set q" using inv by auto
        with 3 m show ?thesis by auto
      qed (use m in auto)
    qed
  next
    show "\<forall>c \<in> fst ` set ?pn. mark_of h2 c = Some GC_NOMARK
            \<longrightarrow> q @ new \<noteq> [] \<and> c = hd (q @ new)"
    proof (intro ballI impI)
      fix c assume c: "c \<in> fst ` set ?pn" and n: "mark_of h2 c = Some GC_NOMARK"
      from n m have "c \<notin> set new" "c \<noteq> v" "mark_of h c = Some GC_NOMARK"
        by (auto split: if_splits)
      with c fp inv have False by auto
      then show "q @ new \<noteq> [] \<and> c = hd (q @ new)" ..
    qed
  next
    show "\<forall>a. mark_of h2 a = Some GC_NOMARK \<longrightarrow> mark_of h0 a = Some GC_NOMARK"
      using m inv by (auto split: if_splits)
  next
    show "\<forall>a. mark_of h0 a = Some GC_NOMARK \<longrightarrow> mark_of h2 a \<noteq> Some GC_NOMARK
             \<longrightarrow> a \<in> fst ` set ?pn"
    proof (intro allI impI)
      fix a assume a0: "mark_of h0 a = Some GC_NOMARK" and a2: "mark_of h2 a \<noteq> Some GC_NOMARK"
      show "a \<in> fst ` set ?pn"
      proof (cases "a \<in> set new \<or> a = v")
        case True
        then show ?thesis using fp vP by auto
      next
        case False
        with a2 m have "mark_of h a \<noteq> Some GC_NOMARK" by simp
        with a0 inv have "a \<in> ?P" by blast
        then show ?thesis using fp by simp
      qed
    qed
  next
    show "\<forall>c \<in> fst ` set ?pn. c \<notin> set (q @ new) \<longrightarrow>
             (\<forall>d \<in> set (children h0 c). mark_of h0 d = Some GC_NOMARK
                \<longrightarrow> d \<in> fst ` set ?pn)"
    proof (intro ballI impI)
      fix c d
      assume c: "c \<in> fst ` set ?pn" and cq: "c \<notin> set (q @ new)"
        and d: "d \<in> set (children h0 c)" and d0: "mark_of h0 d = Some GC_NOMARK"
      from c cq fp have cP: "c \<in> ?P" by auto
      show "d \<in> fst ` set ?pn"
      proof (cases "c = v")
        case True
        show ?thesis
        proof (cases "mark_of h d = Some GC_NOMARK \<and> d \<noteq> v")
          case True
          with d \<open>c = v\<close> ch new have "d \<in> set new" by simp
          then show ?thesis using fp by simp
        next
          case False
          then have "d = v \<or> mark_of h d \<noteq> Some GC_NOMARK" by blast
          then have "d \<in> ?P" using vP d0 inv by blast
          then show ?thesis using fp by simp
        qed
      next
        case False
        with cP cq have "c \<in> ?P" "c \<notin> set (v # q)" by auto
        with inv d d0 have "d \<in> ?P" by blast
        then show ?thesis using fp by simp
      qed
    qed
  next
    have "tl ?pn = tl pushed @ map (\<lambda>c. (c, GC_QUEUED)) new" using inv by simp
    moreover have "mark_of h0 c = Some GC_NOMARK" if "c \<in> set new" for c
      using that new inv by auto
    ultimately show "\<forall>(c, m) \<in> set (tl ?pn). m = GC_QUEUED \<and> mark_of h0 c = Some GC_NOMARK"
      using inv by auto
  qed
  from "2.IH" [OF ov mc refl refl run inv2] inv show ?case by simp
qed

lemma example_between_collections:
  "between_collections example_runtime [0, 1, 2, 3, 4, 5, 6]"
  unfolding between_collections_def closed_def
  by (simp add: example_runtime_def example_store_def lisp_init_def lookup_def mark_of_def
        children_def less_Suc_eq numeral_nat nth_Cons' all_conj_distrib)

theorem mark_sweep_cycle_witness:
  "between_collections example_runtime [0, 1, 2, 3, 4, 5, 6]
   \<and> (\<exists>rt1 rt2 ys.
         lisp_mark example_runtime 1 = Some rt1 \<and> lisp_sweep rt1 = Some rt2
       \<and> obj_list (heap rt2) (Some (head rt2)) ys
       \<and> (\<forall>a \<in> reachable (heap example_runtime) 1. a \<in> set ys)
       \<and> (\<forall>a \<in> set ys. mark_of (heap rt2) a = Some GC_NOMARK)
       \<and> lookup (heap rt2) (nil example_runtime) \<noteq> None)"
proof -
  have r: "(1::nat) \<in> set [0, 1, 2, 3, 4, 5, 6]" by simp
  from mark_sweep_cycle [OF example_between_collections r]
  obtain rt1 rt2 ys where
    "lisp_mark example_runtime 1 = Some rt1" "lisp_sweep rt1 = Some rt2"
    "obj_list (heap rt2) (Some (head rt2)) ys"
    "\<forall>a \<in> reachable (heap example_runtime) 1. a \<in> set ys"
    "\<forall>a \<in> set ys. mark_of (heap rt2) a = Some GC_NOMARK"
    "lookup (heap rt2) (nil example_runtime) \<noteq> None"
    by blast
  then show ?thesis using example_between_collections by blast
qed

text \<open>
  Claim C5 fails as it is stated: \<open>lisp_mark\<close> pushes the root without writing its
  mark. On the example store, with the scope at 1 as the root, the root is in the queue
  with the mark \<open>GC_NOMARK\<close>, and the pushes of the whole call are the root with that
  mark, then the symbol, the cell and the integer with \<open>GC_QUEUED\<close>.
\<close>

theorem root_pushed_unmarked:
  "rb (push_root example_runtime 1) = [1]
   \<and> mark_of (heap (push_root example_runtime 1)) 1 = Some GC_NOMARK
   \<and> map_option snd (lisp_mark_pushed example_runtime 1)
       = Some [(1, GC_NOMARK), (2, GC_QUEUED), (3, GC_QUEUED), (4, GC_QUEUED)]"
  by code_simp

text \<open>
  Claim C5, amended. Called on a closed store with an empty queue, \<open>lisp_mark\<close> pushes
  the root with its mark unchanged and returns with the queue empty. Every later push
  is of a value that was unmarked, with the mark \<open>GC_QUEUED\<close> written first; no value
  is pushed twice; every value pushed has been popped and is marked at the end; and
  every unmarked child of a value pushed has been pushed as well.
\<close>

theorem mark_pushes_once:
  assumes cl: "closed (heap rt)" and q0: "rb rt = []" and ov: "lookup (heap rt) root = Some ov"
  shows "rb (push_root rt root) = [root] \<and> heap (push_root rt root) = heap rt
       \<and> (\<exists>rt' pushed. lisp_mark_pushed rt root = Some (rt', pushed)
            \<and> hd pushed = (root, mark ov)
            \<and> (\<forall>(c, m) \<in> set (tl pushed).
                   m = GC_QUEUED \<and> mark_of (heap rt) c = Some GC_NOMARK)
            \<and> distinct (map fst pushed)
            \<and> (\<forall>c \<in> fst ` set pushed. mark_of (heap rt') c = Some GC_MARKED
                  \<and> (\<forall>d \<in> set (children (heap rt) c).
                         mark_of (heap rt) d = Some GC_NOMARK \<longrightarrow> d \<in> fst ` set pushed))
            \<and> rb rt' = [])"
proof -
  let ?h = "heap rt"
  have "\<exists>r. mark_loop ?h [root] [(root, mark ov)] = Some r"
    using cl ov by (intro mark_loop_defined [of ?h]) auto
  then obtain h1 pushed where run: "mark_loop ?h [root] [(root, mark ov)] = Some (h1, pushed)"
    by auto
  have i0: "push_inv ?h ?h [root] [(root, mark ov)]"
    by (simp add: push_inv_def)
  from mark_loop_push_inv [OF run i0]
  have i1: "push_inv ?h h1 [] pushed" and hd: "hd pushed = (root, mark ov)" by simp_all
  note i = i1 [unfolded push_inv_def]
  have res: "lisp_mark_pushed rt root = Some (rt\<lparr>heap := h1, rb := []\<rparr>, pushed)"
    using ov run q0 by (simp add: lisp_mark_pushed_def push_root_def)
  have a: "\<forall>(c, m) \<in> set (tl pushed). m = GC_QUEUED \<and> mark_of ?h c = Some GC_NOMARK"
    using i by blast
  have b: "distinct (map fst pushed)" using i by blast
  have c: "\<forall>c \<in> fst ` set pushed. mark_of h1 c = Some GC_MARKED
             \<and> (\<forall>d \<in> set (children ?h c).
                    mark_of ?h d = Some GC_NOMARK \<longrightarrow> d \<in> fst ` set pushed)"
  proof
    fix c assume c: "c \<in> fst ` set pushed"
    have "mark_of h1 c = Some GC_MARKED" using i c by auto
    moreover have "\<forall>d \<in> set (children ?h c).
                    mark_of ?h d = Some GC_NOMARK \<longrightarrow> d \<in> fst ` set pushed"
      using i c by auto
    ultimately show "mark_of h1 c = Some GC_MARKED
             \<and> (\<forall>d \<in> set (children ?h c).
                    mark_of ?h d = Some GC_NOMARK \<longrightarrow> d \<in> fst ` set pushed)" ..
  qed
  have "rb (push_root rt root) = [root] \<and> heap (push_root rt root) = heap rt"
    using q0 by (simp add: push_root_def)
  moreover have "\<exists>rt' pushed. lisp_mark_pushed rt root = Some (rt', pushed)
            \<and> hd pushed = (root, mark ov)
            \<and> (\<forall>(c, m) \<in> set (tl pushed).
                   m = GC_QUEUED \<and> mark_of (heap rt) c = Some GC_NOMARK)
            \<and> distinct (map fst pushed)
            \<and> (\<forall>c \<in> fst ` set pushed. mark_of (heap rt') c = Some GC_MARKED
                  \<and> (\<forall>d \<in> set (children (heap rt) c).
                         mark_of (heap rt) d = Some GC_NOMARK \<longrightarrow> d \<in> fst ` set pushed))
            \<and> rb rt' = []"
    using res hd a b c
    by (intro exI [of _ "rt\<lparr>heap := h1, rb := []\<rparr>"] exI [of _ pushed]) simp
  ultimately show ?thesis by (elim conjE, intro conjI)
qed

theorem mark_pushes_once_witness:
  "closed (heap example_runtime) \<and> rb example_runtime = []
   \<and> (\<exists>rt' pushed. lisp_mark_pushed example_runtime 1 = Some (rt', pushed)
         \<and> hd pushed = (1, GC_NOMARK)
         \<and> distinct (map fst pushed)
         \<and> (\<forall>c \<in> fst ` set pushed. mark_of (heap rt') c = Some GC_MARKED)
         \<and> rb rt' = [])"
proof -
  have cl: "closed (heap example_runtime)"
    using example_between_collections by (simp add: between_collections_def)
  have q0: "rb example_runtime = []" by (simp add: example_runtime_def lisp_init_def)
  have ov: "lookup (heap example_runtime) 1
              = Some \<lparr>mark = GC_NOMARK, nxt = Some 2, payload = Scope [(2, 3)] None\<rparr>"
    by (simp add: example_runtime_def example_store_def lookup_def)
  from mark_pushes_once [OF cl q0 ov] obtain rt' pushed where
    "lisp_mark_pushed example_runtime 1 = Some (rt', pushed)"
    "hd pushed = (1, GC_NOMARK)" "distinct (map fst pushed)"
    "\<forall>c \<in> fst ` set pushed. mark_of (heap rt') c = Some GC_MARKED" "rb rt' = []"
    by auto
  then show ?thesis using cl q0 by blast
qed
section \<open>Properties of quasiquote\<close>

text \<open>
  Claim C1. \<open>quasiquote\<close> does not copy, it writes the results into the cells of the
  template it was given. On the example store, \<open>(quasiquote x)\<close> with \<open>x\<close> the
  template \<open>(1 (unquote 7) (2 (unquote 7)))\<close> at 15 returns the object 15 itself, and
  the cells 14 and 11 of the template, which held the two unquote forms at 4 and 9, hold
  the integer at 2 afterwards: the template passed in has become \<open>(1 7 (2 7))\<close>.
\<close>

theorem quasiquote_modifies_template:
  "lisp_builtin_quasiquote 8 eval_unquote_self template_runtime 0 16
     = Some (template_runtime\<lparr>heap := template_store[11 := cell 2 0, 14 := cell 2 13]\<rparr>,
             Some 15)
   \<and> lookup template_store 11 = cell 9 0 \<and> lookup template_store 14 = cell 4 13"
  by code_simp

end
